theory Spec2Isabelle
  imports Main "HOL-Library.Sublist"
begin

section \<open>Strings as the JavaScript code uses them\<close>

text \<open>
  A JavaScript string is modelled as a \<^typ>\<open>string\<close>, one \<^typ>\<open>char\<close> per code unit
  (code units below 256, read as Latin-1).  \<open>s.includes(t)\<close> is \<^const>\<open>sublist\<close>,
  \<open>s.endsWith(t)\<close> is \<^const>\<open>suffix\<close>, \<open>s.startsWith(t)\<close> is \<^const>\<open>prefix\<close>.
\<close>

definition is_upper :: "char \<Rightarrow> bool" where
  "is_upper c = (let n = (of_char c :: nat) in
     (65 \<le> n \<and> n \<le> 90) \<or> (192 \<le> n \<and> n \<le> 222 \<and> n \<noteq> 215))"

definition lower_char :: "char \<Rightarrow> char" where
  "lower_char c = (if is_upper c then char_of ((of_char c :: nat) + 32) else c)"

text \<open>\<open>String.prototype.toLowerCase\<close>.\<close>

definition toLowerCase :: "string \<Rightarrow> string" where
  "toLowerCase s = map lower_char s"

text \<open>White space and line terminators of ECMAScript below code unit 256.\<close>

definition is_space :: "char \<Rightarrow> bool" where
  "is_space c = ((of_char c :: nat) \<in> {9, 10, 11, 12, 13, 32, 160})"

text \<open>\<open>String.prototype.trim\<close>.\<close>

definition trim :: "string \<Rightarrow> string" where
  "trim s = rev (dropWhile is_space (rev (dropWhile is_space s)))"

text \<open>
  \<open>s.replace(/X+/g, r)\<close> for a character class \<open>X\<close>: every maximal run of characters
  of the class becomes the single character \<open>r\<close>.
\<close>

function replace_runs :: "(char \<Rightarrow> bool) \<Rightarrow> char \<Rightarrow> string \<Rightarrow> string" where
  "replace_runs X r [] = []"
| "replace_runs X r (c # cs) =
     (if X c then r # replace_runs X r (dropWhile X cs) else c # replace_runs X r cs)"
  by pat_completeness auto
termination
  by (relation "measure (\<lambda>(X, r, s). length s)")
     (auto simp: le_imp_less_Suc length_dropWhile_le)

text \<open>\<open>s.replace(/X+/, r)\<close>, without the \<open>g\<close> flag: only the first run is replaced.\<close>

fun replace_first_run :: "(char \<Rightarrow> bool) \<Rightarrow> char \<Rightarrow> string \<Rightarrow> string" where
  "replace_first_run X r [] = []"
| "replace_first_run X r (c # cs) =
     (if X c then r # dropWhile X cs else c # replace_first_run X r cs)"

text \<open>\<open>s.split("/")\<close>: the empty string splits into one empty segment.\<close>

fun split_on :: "char \<Rightarrow> string \<Rightarrow> string list" where
  "split_on d [] = [[]]"
| "split_on d (c # cs) =
     (if c = d then [] # split_on d cs
      else (case split_on d cs of [] \<Rightarrow> [[c]] | s # ss \<Rightarrow> (c # s) # ss))"

text \<open>\<open>parts.join("/")\<close>.\<close>

fun join_slash :: "string list \<Rightarrow> string" where
  "join_slash [] = []"
| "join_slash [s] = s"
| "join_slash (s # t # ts) = s @ CHR ''/'' # join_slash (t # ts)"

section \<open>src/lib/util.js\<close>

subsection \<open>slugify\<close>

text \<open>The character class \<open>[a-z0-9-]\<close>.\<close>

definition is_slug_char :: "char \<Rightarrow> bool" where
  "is_slug_char c = (c \<in> set ''abcdefghijklmnopqrstuvwxyz0123456789-'')"

text \<open>
  \<open>s.replace(/^-|-$/g, "")\<close>: a hyphen at index 0 is removed by the first alternative;
  the scan goes on behind it, where only the second alternative can match, at the last
  index.
\<close>

definition strip_edge_hyphens :: "string \<Rightarrow> string" where
  "strip_edge_hyphens s =
     (let s1 = (case s of [] \<Rightarrow> [] | c # cs \<Rightarrow> if c = CHR ''-'' then cs else c # cs)
      in if s1 \<noteq> [] \<and> last s1 = CHR ''-'' then butlast s1 else s1)"

text \<open>
  \<^verbatim>\<open>
  export function slugify(input) {
    if (!input) return "";
    return String(input).trim().toLowerCase()
      .replace(/[^a-z0-9-]+/g, "-").replace(/-+/g, "-").replace(/^-|-$/g, "").slice(0, 63);
  }
  \<close>
  The empty string is the failure value: every caller tests the result with \<open>!slug\<close>.
\<close>

definition slugify :: "string \<Rightarrow> string" where
  "slugify input =
     (if input = [] then []
      else take 63 (strip_edge_hyphens
             (replace_runs (\<lambda>c. c = CHR ''-'') (CHR ''-'')
               (replace_runs (\<lambda>c. \<not> is_slug_char c) (CHR ''-'')
                 (toLowerCase (trim input))))))"

subsection \<open>safeJoinPosix\<close>

text \<open>
  \<^verbatim>\<open>
  for (const p of parts) {
    if (p === "." || p === "") continue;
    if (p === "..") continue;
    safe.push(p);
  }
  \<close>
\<close>

fun safe_loop :: "string list \<Rightarrow> string list \<Rightarrow> string list" where
  "safe_loop [] safe = safe"
| "safe_loop (p # ps) safe =
     (if p = ''.'' \<or> p = [] then safe_loop ps safe
      else if p = ''..'' then safe_loop ps safe
      else safe_loop ps (safe @ [p]))"

text \<open>
  \<^verbatim>\<open>
  export function safeJoinPosix(prefix, rel) {
    const joined = `${prefix}/${rel}`.replace(/\/+/, "/").replace(/\/+/g, "/");
    const parts = joined.split("/").filter(Boolean);
    const safe = []; ...
    return safe.join("/");
  }
  \<close>
\<close>

definition safeJoinPosix :: "string \<Rightarrow> string \<Rightarrow> string" where
  "safeJoinPosix pre rel =
     (let joined = replace_runs (\<lambda>c. c = CHR ''/'') (CHR ''/'')
                     (replace_first_run (\<lambda>c. c = CHR ''/'') (CHR ''/'')
                       (pre @ ''/'' @ rel));
          parts = filter (\<lambda>s. s \<noteq> []) (split_on (CHR ''/'') joined)
      in join_slash (safe_loop parts []))"

section \<open>src/contentType.js\<close>

text \<open>
  JavaScript truthiness of a value that is a string or absent (\<open>undefined\<close>, \<open>null\<close>,
  \<open>false\<close>): the empty string is falsy too.  \<open>a || b\<close> on such values is \<open>or_else\<close>.
\<close>

definition truthy :: "string option \<Rightarrow> bool" where
  "truthy v = (case v of None \<Rightarrow> False | Some s \<Rightarrow> s \<noteq> [])"

definition or_else :: "string option \<Rightarrow> string option \<Rightarrow> string option" where
  "or_else a b = (if truthy a then a else b)"

text \<open>
  \<open>mime.lookup\<close> belongs to the package \<open>mime-types\<close>; it is a parameter \<open>mime\<close> of
  the model, \<open>None\<close> standing for its result \<open>false\<close>.
  \<^verbatim>\<open>
  export function lookupContentType(path) {
    const ct = mime.lookup(path);
    if (!ct) return null;
    if (ct === "text/html") return "text/html; charset=utf-8";
    ...
    return ct.toString();
  }
  \<close>
\<close>

definition lookupContentType :: "(string \<Rightarrow> string option) \<Rightarrow> string \<Rightarrow> string option" where
  "lookupContentType mime path =
     (let ct = mime path in
      if \<not> truthy ct then None
      else if ct = Some ''text/html'' then Some ''text/html; charset=utf-8''
      else if ct = Some ''text/css'' then Some ''text/css; charset=utf-8''
      else if ct = Some ''application/javascript''
        then Some ''application/javascript; charset=utf-8''
      else if ct = Some ''text/plain'' then Some ''text/plain; charset=utf-8''
      else if ct = Some ''application/json'' then Some ''application/json; charset=utf-8''
      else ct)"

section \<open>The object store\<close>

text \<open>
  The bucket behind \<open>s3.send\<close>.  An object is what \<open>PutObjectCommand\<close> sends and
  \<open>GetObjectCommand\<close> gives back: \<open>Body\<close>, \<open>ContentType\<close>, \<open>CacheControl\<close>.
\<close>

record stored_object =
  Body :: string
  ContentType :: "string option"
  CacheControl :: "string option"

text \<open>
  What a request to the store can fail with: the object is missing, or anything else
  (network, credentials, throttling).
\<close>

datatype store_error = NoSuchKey | StoreFailure

datatype store_call = Head string | Get string | Put string

text \<open>
  The state of the store as one request handler sees it: the objects by key, the
  requests sent so far (\<open>calls\<close>, the latest last), and \<open>pending\<close>, the failures the
  environment has in stock.  Every interaction with the store (a command sent, a body
  stream read) takes the head of \<open>pending\<close>: \<open>Some e\<close> makes it fail with \<open>e\<close>,
  \<open>None\<close> and the empty list let it through.
\<close>

record store =
  objects :: "string \<rightharpoonup> stored_object"
  calls :: "store_call list"
  pending :: "store_error option list"

definition next_fault :: "store \<Rightarrow> store_error option \<times> store" where
  "next_fault st =
     (case pending st of [] \<Rightarrow> (None, st) | f # fs \<Rightarrow> (f, st\<lparr>pending := fs\<rparr>))"

definition send_cmd :: "store_call \<Rightarrow> store \<Rightarrow> store_error option \<times> store" where
  "send_cmd c st = next_fault (st\<lparr>calls := calls st @ [c]\<rparr>)"

text \<open>\<open>s3.send(new HeadObjectCommand({ Bucket, Key }))\<close>\<close>

definition headObject :: "string \<Rightarrow> store \<Rightarrow> (store_error + unit) \<times> store" where
  "headObject k st =
     (case send_cmd (Head k) st of
        (Some e, st') \<Rightarrow> (Inl e, st')
      | (None, st') \<Rightarrow>
          (case objects st' k of None \<Rightarrow> (Inl NoSuchKey, st') | Some ob \<Rightarrow> (Inr (), st')))"

text \<open>\<open>s3.send(new GetObjectCommand({ Bucket, Key }))\<close>\<close>

definition getObject :: "string \<Rightarrow> store \<Rightarrow> (store_error + stored_object) \<times> store" where
  "getObject k st =
     (case send_cmd (Get k) st of
        (Some e, st') \<Rightarrow> (Inl e, st')
      | (None, st') \<Rightarrow>
          (case objects st' k of None \<Rightarrow> (Inl NoSuchKey, st') | Some ob \<Rightarrow> (Inr ob, st')))"

text \<open>\<open>s3.send(new PutObjectCommand({ Bucket, Key, Body, ContentType, CacheControl }))\<close>\<close>

definition putObject :: "string \<Rightarrow> stored_object \<Rightarrow> store \<Rightarrow> (store_error + unit) \<times> store" where
  "putObject k ob st =
     (case send_cmd (Put k) st of
        (Some e, st') \<Rightarrow> (Inl e, st')
      | (None, st') \<Rightarrow> (Inr (), st'\<lparr>objects := (objects st')(k \<mapsto> ob)\<rparr>))"

text \<open>
  \<open>streamToBuffer(obj.Body)\<close> (src/lib/util.js) reads the body of a fetched object from
  the network; the read can fail like a request.
\<close>

definition streamToBuffer :: "stored_object \<Rightarrow> store \<Rightarrow> (store_error + string) \<times> store" where
  "streamToBuffer ob st =
     (case next_fault st of
        (Some e, st') \<Rightarrow> (Inl e, st')
      | (None, st') \<Rightarrow> (Inr (Body ob), st'))"

section \<open>src/index.js\<close>

text \<open>The settings read from the environment, after the parsing of lines 20 to 22.\<close>

record config =
  MAIN_HOSTS :: "string list"
  HOSTING_BASE_DOMAIN :: string
  SPA_FALLBACK :: bool

definition default_config :: config where
  "default_config =
     \<lparr>MAIN_HOSTS = [''quick-stage.app'', ''www.quick-stage.app'',
                     ''quickstage.app'', ''www.quickstage.app''],
      HOSTING_BASE_DOMAIN = ''quick-stage.app'',
      SPA_FALLBACK = True\<rparr>"

definition META_PREFIX :: string where
  "META_PREFIX = ''__meta/projects/''"

definition SITES_PREFIX :: string where
  "SITES_PREFIX = ''sites/''"

text \<open>\<open>s.replace(/^\/+/, "")\<close>\<close>

definition strip_leading_slashes :: "string \<Rightarrow> string" where
  "strip_leading_slashes s = dropWhile (\<lambda>c. c = CHR ''/'') s"

subsection \<open>projectExists\<close>

text \<open>
  \<^verbatim>\<open>
  async function projectExists(slug) {
    const key = `${META_PREFIX}${slug}.json`;
    try { await s3.send(new HeadObjectCommand({ Bucket: R2_BUCKET, Key: key })); return true; }
    catch { return false; }
  }
  \<close>
\<close>

definition projectExists :: "string \<Rightarrow> store \<Rightarrow> bool \<times> store" where
  "projectExists slug st =
     (case headObject (META_PREFIX @ slug @ ''.json'') st of
        (Inl e, st') \<Rightarrow> (False, st')
      | (Inr u, st') \<Rightarrow> (True, st'))"

subsection \<open>The upload route\<close>

text \<open>An entry of the archive listing \<open>directory.files\<close> of \<open>unzipper\<close>.\<close>

datatype entry_type = File | Directory

record entry =
  etype :: entry_type
  path :: string
  data :: string

text \<open>
  The request: the route parameter \<open>:slug\<close> and \<open>req.file\<close>, absent or the uploaded
  archive.  \<open>unzipper.Open.file\<close> throws on a file that is no archive (\<open>Corrupt\<close>) and
  gives the listing otherwise.
\<close>

datatype zip_file = Corrupt | Listing "entry list"

record upload_request =
  slug_param :: string
  req_file :: "zip_file option"

text \<open>The response: \<open>res.status(code).json({ok: false, error})\<close> or the success body.\<close>

datatype upload_response =
  UploadError nat string
| UploadOk (uploaded: nat) (skipped: nat) (url: string)

text \<open>
  One turn of the loop over \<open>directory.files\<close> (lines 164 to 181), on the store and the
  two counters; \<open>Inl\<close> is the exception of a failed put, which leaves the loop.
  \<^verbatim>\<open>
  if (entry.type !== "File") { skipped++; continue; }
  const relPath = entry.path.replace(/^\/+/, "");
  if (relPath.includes("..")) { skipped++; continue; }
  const keyPath = safeJoinPosix(`${SITES_PREFIX}${slug}`, relPath);
  const contentType = lookupContentType(relPath) || "application/octet-stream";
  const bodyStream = entry.stream();
  await s3.send(new PutObjectCommand({ Bucket: R2_BUCKET, Key: keyPath, Body: bodyStream,
    ContentType: contentType,
    CacheControl: relPath.toLowerCase().endsWith(".html") ? "no-cache" : "public, max-age=86400" }));
  uploaded++;
  \<close>
\<close>

definition upload_entry ::
  "(string \<Rightarrow> string option) \<Rightarrow> string \<Rightarrow> entry \<Rightarrow> store \<times> nat \<times> nat
     \<Rightarrow> store + store \<times> nat \<times> nat" where
  "upload_entry mime slug e acc =
     (case acc of (st, up, sk) \<Rightarrow>
        if etype e \<noteq> File then Inr (st, up, sk + 1)
        else
          let relPath = strip_leading_slashes (path e) in
          if sublist ''..'' relPath then Inr (st, up, sk + 1)
          else
            let keyPath = safeJoinPosix (SITES_PREFIX @ slug) relPath;
                contentType = or_else (lookupContentType mime relPath)
                                (Some ''application/octet-stream'');
                cacheControl = (if suffix ''.html'' (toLowerCase relPath) then ''no-cache''
                                else ''public, max-age=86400'')
            in (case putObject keyPath
                       \<lparr>Body = data e, ContentType = contentType,
                        CacheControl = Some cacheControl\<rparr> st of
                  (Inl err, st') \<Rightarrow> Inl st'
                | (Inr u, st') \<Rightarrow> Inr (st', up + 1, sk)))"

fun upload_entries ::
  "(string \<Rightarrow> string option) \<Rightarrow> string \<Rightarrow> entry list \<Rightarrow> store \<times> nat \<times> nat
     \<Rightarrow> store + store \<times> nat \<times> nat" where
  "upload_entries mime slug [] acc = Inr acc"
| "upload_entries mime slug (e # es) acc =
     (case upload_entry mime slug e acc of
        Inl st' \<Rightarrow> Inl st'
      | Inr acc' \<Rightarrow> upload_entries mime slug es acc')"

text \<open>
  The handler of \<open>POST /api/projects/:slug/upload\<close> (lines 144 to 195), behind
  \<open>requireAuth\<close> and \<open>multer\<close>.  Every exception inside the \<open>try\<close> ends in
  \<open>res.status(500).json({ ok: false, error: "Upload failed" })\<close>.
\<close>

definition upload_route ::
  "config \<Rightarrow> (string \<Rightarrow> string option) \<Rightarrow> upload_request \<Rightarrow> store
     \<Rightarrow> upload_response \<times> store" where
  "upload_route cfg mime req st =
     (let slug = slugify (slug_param req) in
      if slug = [] then (UploadError 400 ''Invalid project slug'', st)
      else
        (case projectExists slug st of
           (False, st1) \<Rightarrow> (UploadError 404 ''Project not found. Create it first.'', st1)
         | (True, st1) \<Rightarrow>
             (case req_file req of
                None \<Rightarrow>
                  (UploadError 400 ''Missing file (multipart field name must be 'file')'', st1)
              | Some Corrupt \<Rightarrow> (UploadError 500 ''Upload failed'', st1)
              | Some (Listing files) \<Rightarrow>
                  if length files > 2000
                  then (UploadError 400 ''Zip has too many files (max 2000).'', st1)
                  else
                    (case upload_entries mime slug files (st1, 0, 0) of
                       Inl st2 \<Rightarrow> (UploadError 500 ''Upload failed'', st2)
                     | Inr (st2, up, sk) \<Rightarrow>
                         (UploadOk up sk
                            (''https://'' @ slug @ ''.'' @ HOSTING_BASE_DOMAIN cfg @ ''/''),
                          st2)))))"

subsection \<open>getProjectFromHost\<close>

text \<open>
  \<^verbatim>\<open>
  function getProjectFromHost(host) {
    if (!host) return null;
    host = host.split(":")[0].toLowerCase();
    if (MAIN_HOSTS.includes(host)) return null;
    const base = HOSTING_BASE_DOMAIN.toLowerCase();
    if (host === base) return null;
    if (host.endsWith("." + base)) {
      const sub = host.slice(0, -(base.length + 1));
      const project = sub.split(".")[0];
      return slugify(project);
    }
    return null;
  }
  \<close>
  \<open>None\<close> is \<open>null\<close>.  The caller tests the result with \<open>!project\<close>, so the empty
  slug \<open>Some []\<close> means "no project" as well.
\<close>

definition getProjectFromHost :: "config \<Rightarrow> string \<Rightarrow> string option" where
  "getProjectFromHost cfg host0 =
     (if host0 = [] then None
      else
        let host = toLowerCase (takeWhile (\<lambda>c. c \<noteq> CHR '':'') host0) in
        if host \<in> set (MAIN_HOSTS cfg) then None
        else
          let base = toLowerCase (HOSTING_BASE_DOMAIN cfg) in
          if host = base then None
          else if suffix (''.'' @ base) host then
            let sub = take (length host - (length base + 1)) host;
                project = takeWhile (\<lambda>c. c \<noteq> CHR ''.'') sub
            in Some (slugify project)
          else None)"

subsection \<open>fetchObject\<close>

text \<open>
  \<^verbatim>\<open>
  async function fetchObject(key) {
    return await s3.send(new GetObjectCommand({ Bucket: R2_BUCKET, Key: key }));
  }
  \<close>
  The exception of \<open>s3.send\<close> goes through to the caller as it is.
\<close>

definition fetchObject :: "string \<Rightarrow> store \<Rightarrow> (store_error + stored_object) \<times> store" where
  "fetchObject key st = getObject key st"

subsection \<open>The serving route\<close>

text \<open>
  The response object \<open>res\<close>: the status (200 until set), the two headers the handler
  sets, and the body sent.
\<close>

record response =
  status :: nat
  content_type :: "string option"
  cache_control :: "string option"
  body :: string

definition fresh_res :: response where
  "fresh_res = \<lparr>status = 200, content_type = None, cache_control = None, body = []\<rparr>"

text \<open>
  \<open>res.status(404).type("text/plain").send("Not Found")\<close>; \<open>res.send\<close> of Express puts
  the charset on the content type of a string body.
\<close>

definition send_not_found :: "response \<Rightarrow> response" where
  "send_not_found res =
     res\<lparr>status := 404, content_type := Some ''text/plain; charset=utf-8'',
         body := ''Not Found''\<rparr>"

text \<open>
  The three \<open>try { ... } catch {}\<close> blocks of the handler.  Each takes \<open>res\<close> and the
  store; \<open>Inl\<close> is the response sent by \<open>return res.send(buf)\<close>, \<open>Inr\<close> is \<open>res\<close> as
  the block leaves it when an exception ends it in the empty \<open>catch\<close>.
  \<^verbatim>\<open>
  try {
    const obj = await fetchObject(baseKey);
    const contentType = obj.ContentType || lookupContentType(rel) || "application/octet-stream";
    res.status(200);
    res.setHeader("Content-Type", contentType);
    if (obj.CacheControl) res.setHeader("Cache-Control", obj.CacheControl);
    const buf = await streamToBuffer(obj.Body);
    return res.send(buf);
  } catch {}
  \<close>
\<close>

definition try_exact ::
  "(string \<Rightarrow> string option) \<Rightarrow> string \<Rightarrow> string \<Rightarrow> response \<Rightarrow> store
     \<Rightarrow> (response + response) \<times> store" where
  "try_exact mime rel baseKey res st =
     (case fetchObject baseKey st of
        (Inl e, st1) \<Rightarrow> (Inr res, st1)
      | (Inr obj, st1) \<Rightarrow>
          let contentType = or_else (ContentType obj)
                              (or_else (lookupContentType mime rel)
                                 (Some ''application/octet-stream''));
              res1 = res\<lparr>status := 200, content_type := contentType\<rparr>;
              res2 = (if truthy (CacheControl obj)
                      then res1\<lparr>cache_control := CacheControl obj\<rparr> else res1)
          in (case streamToBuffer obj st1 of
                (Inl e, st2) \<Rightarrow> (Inr res2, st2)
              | (Inr buf, st2) \<Rightarrow> (Inl (res2\<lparr>body := buf\<rparr>), st2)))"

text \<open>
  \<^verbatim>\<open>
  try {
    const obj = await fetchObject(htmlKey);
    res.setHeader("Content-Type", obj.ContentType || "text/html; charset=utf-8");
    const buf = await streamToBuffer(obj.Body);
    return res.send(buf);
  } catch {}
  \<close>
\<close>

definition try_html :: "string \<Rightarrow> response \<Rightarrow> store \<Rightarrow> (response + response) \<times> store" where
  "try_html htmlKey res st =
     (case fetchObject htmlKey st of
        (Inl e, st1) \<Rightarrow> (Inr res, st1)
      | (Inr obj, st1) \<Rightarrow>
          let res1 = res\<lparr>content_type :=
                           or_else (ContentType obj) (Some ''text/html; charset=utf-8'')\<rparr>
          in (case streamToBuffer obj st1 of
                (Inl e, st2) \<Rightarrow> (Inr res1, st2)
              | (Inr buf, st2) \<Rightarrow> (Inl (res1\<lparr>body := buf\<rparr>), st2)))"

text \<open>
  \<^verbatim>\<open>
  try {
    const obj = await fetchObject(`${SITES_PREFIX}${project}/index.html`);
    res.setHeader("Content-Type", obj.ContentType || "text/html; charset=utf-8");
    const buf = await streamToBuffer(obj.Body);
    return res.status(200).send(buf);
  } catch {}
  \<close>
\<close>

definition try_spa :: "string \<Rightarrow> response \<Rightarrow> store \<Rightarrow> (response + response) \<times> store" where
  "try_spa project res st =
     (case fetchObject (SITES_PREFIX @ project @ ''/index.html'') st of
        (Inl e, st1) \<Rightarrow> (Inr res, st1)
      | (Inr obj, st1) \<Rightarrow>
          let res1 = res\<lparr>content_type :=
                           or_else (ContentType obj) (Some ''text/html; charset=utf-8'')\<rparr>
          in (case streamToBuffer obj st1 of
                (Inl e, st2) \<Rightarrow> (Inr res1, st2)
              | (Inr buf, st2) \<Rightarrow> (Inl (res1\<lparr>status := 200, body := buf\<rparr>), st2)))"

text \<open>The steps of the fallback chain, to record which of them a request went through.\<close>

datatype chain_step = Exact | ImplicitHtml | SpaFallback

text \<open>\<open>req.path || "/"\<close>, \<open>if (path === "/") path = "/index.html"\<close>, and the strip.\<close>

definition rel_of_path :: "string \<Rightarrow> string" where
  "rel_of_path p =
     (let path1 = (if p = [] then ''/'' else p);
          path2 = (if path1 = ''/'' then ''/index.html'' else path1)
      in strip_leading_slashes path2)"

text \<open>
  The handler of \<open>app.get("*")\<close> (lines 243 to 289) on the \<open>Host\<close> header and the
  request path.  It gives the response, the chain steps it attempted in order, and the
  store.  The outer \<open>catch\<close>, which answers 500, is reached by no exception of a store
  request or of a body read: each of them is inside one of the three inner blocks.
\<close>

definition serve_route ::
  "config \<Rightarrow> (string \<Rightarrow> string option) \<Rightarrow> string \<Rightarrow> string \<Rightarrow> store
     \<Rightarrow> response \<times> chain_step list \<times> store" where
  "serve_route cfg mime host reqpath st =
     (case getProjectFromHost cfg host of
        None \<Rightarrow> (send_not_found fresh_res, [], st)
      | Some project \<Rightarrow>
          if project = [] then (send_not_found fresh_res, [], st)
          else
            let rel = rel_of_path reqpath;
                baseKey = safeJoinPosix (SITES_PREFIX @ project) rel
            in (case try_exact mime rel baseKey fresh_res st of
                  (Inl sent, st1) \<Rightarrow> (sent, [Exact], st1)
                | (Inr res1, st1) \<Rightarrow>
                    (case (if \<not> sublist ''.'' rel \<and> \<not> suffix ''/'' rel
                           then (try_html (safeJoinPosix (SITES_PREFIX @ project)
                                             (rel @ ''.html'')) res1 st1,
                                 [Exact, ImplicitHtml])
                           else ((Inr res1, st1), [Exact])) of
                       ((Inl sent, st2), steps2) \<Rightarrow> (sent, steps2, st2)
                     | ((Inr res2, st2), steps2) \<Rightarrow>
                         (case (if SPA_FALLBACK cfg
                                then (try_spa project res2 st2, steps2 @ [SpaFallback])
                                else ((Inr res2, st2), steps2)) of
                            ((Inl sent, st3), steps3) \<Rightarrow> (sent, steps3, st3)
                          | ((Inr res3, st3), steps3) \<Rightarrow>
                              (send_not_found res3, steps3, st3)))))"

section \<open>Notions used in the proofs\<close>

text \<open>The non-empty segments of a path, and the segments the loop of \<open>safeJoinPosix\<close> keeps.\<close>

definition segs :: "string \<Rightarrow> string list" where
  "segs s = filter (\<lambda>x. x \<noteq> []) (split_on (CHR ''/'') s)"

definition keep_seg :: "string \<Rightarrow> bool" where
  "keep_seg p = (p \<noteq> ''.'' \<and> p \<noteq> [] \<and> p \<noteq> ''..'')"

text \<open>
  A key is under the site of a slug when it is \<open>sites/<slug>\<close> or starts with
  \<open>sites/<slug>/\<close>.  A run from \<open>st\<close> to \<open>st'\<close> only writes keys of \<open>P\<close> when every
  other key keeps its object and every \<open>Put\<close> the run sends is for a key of \<open>P\<close>.
\<close>

definition under_site :: "string \<Rightarrow> string \<Rightarrow> bool" where
  "under_site slug k = (k = ''sites/'' @ slug \<or> prefix (''sites/'' @ slug @ ''/'') k)"

definition only_writes :: "(string \<Rightarrow> bool) \<Rightarrow> store \<Rightarrow> store \<Rightarrow> bool" where
  "only_writes P st st' =
     ((\<forall>k. \<not> P k \<longrightarrow> objects st' k = objects st k) \<and>
      (\<exists>cs. calls st' = calls st @ cs \<and> (\<forall>k. Put k \<in> set cs \<longrightarrow> P k)))"

text \<open>
  The store with every failure in stock turned into "missing object": what the
  environment would be if no request ever failed for another reason.
\<close>

definition forget_kind :: "store \<Rightarrow> store" where
  "forget_kind st = st\<lparr>pending := map (map_option (\<lambda>e. NoSuchKey)) (pending st)\<rparr>"

section \<open>Sample data\<close>

text \<open>
  A fragment of the table of \<open>mime-types\<close>, a store that holds the metadata of the
  project \<open>demo\<close>, and some uploads.
\<close>

definition sample_mime :: "string \<Rightarrow> string option" where
  "sample_mime p =
     (if suffix ''.html'' p then Some ''text/html''
      else if suffix ''.css'' p then Some ''text/css''
      else None)"

definition demo_store :: store where
  "demo_store =
     \<lparr>objects = [''__meta/projects/demo.json'' \<mapsto>
                   \<lparr>Body = ''{}'', ContentType = Some ''application/json; charset=utf-8'',
                    CacheControl = Some ''no-store''\<rparr>],
      calls = [], pending = []\<rparr>"

definition passwd_entry :: entry where
  "passwd_entry = \<lparr>etype = File, path = ''../../etc/passwd'', data = ''root''\<rparr>"

definition demo_files :: "entry list" where
  "demo_files =
     [\<lparr>etype = File, path = ''/index.html'', data = ''<h1>demo</h1>''\<rparr>,
      \<lparr>etype = Directory, path = ''css/'', data = []\<rparr>,
      passwd_entry]"

definition demo_upload :: upload_request where
  "demo_upload = \<lparr>slug_param = ''demo'', req_file = Some (Listing demo_files)\<rparr>"

definition dot_upload :: upload_request where
  "dot_upload =
     \<lparr>slug_param = ''demo'',
      req_file = Some (Listing [\<lparr>etype = File, path = ''.'', data = ''x''\<rparr>])\<rparr>"

definition big_upload :: upload_request where
  "big_upload =
     \<lparr>slug_param = ''demo'',
      req_file = Some (Listing (replicate 2001 \<lparr>etype = File, path = ''a.txt'', data = ''a''\<rparr>))\<rparr>"

definition notes_entry :: entry where
  "notes_entry = \<lparr>etype = File, path = ''/notes..txt'', data = ''n''\<rparr>"

text \<open>
  Three stores for the serving route: one that holds \<open>about.html\<close> only, one that holds
  \<open>index.html\<close> only, and one that holds \<open>about.html\<close> while its next two requests fail
  for a reason other than a missing object.
\<close>

definition about_store :: store where
  "about_store =
     \<lparr>objects = [''sites/demo/about.html'' \<mapsto>
                   \<lparr>Body = ''<h1>about</h1>'', ContentType = None, CacheControl = None\<rparr>],
      calls = [], pending = []\<rparr>"

definition index_store :: store where
  "index_store =
     \<lparr>objects = [''sites/demo/index.html'' \<mapsto>
                   \<lparr>Body = ''<div id=app>'', ContentType = Some ''text/html; charset=utf-8'',
                    CacheControl = Some ''no-cache''\<rparr>],
      calls = [], pending = []\<rparr>"


section \<open>Splitting and joining\<close>

lemma split_on_not_Nil: "split_on d s \<noteq> []"
  by (induction s) (auto split: list.splits)

lemma split_on_Cons_other:
  "c \<noteq> d \<Longrightarrow> split_on d (c # cs) = (c # hd (split_on d cs)) # tl (split_on d cs)"
  using split_on_not_Nil [of d cs] by (cases "split_on d cs") auto

lemma split_on_append: "split_on d (a @ d # b) = split_on d a @ split_on d b"
proof (induction a)
  case Nil
  show ?case by simp
next
  case (Cons c a)
  show ?case
  proof (cases "c = d")
    case True
    with Cons show ?thesis by simp
  next
    case False
    have ne: "split_on d a \<noteq> []" by (rule split_on_not_Nil)
    from False Cons ne show ?thesis
      by (simp add: split_on_Cons_other del: split_on.simps)
  qed
qed

lemma split_on_no_sep: "d \<notin> set s \<Longrightarrow> split_on d s = [s]"
  by (induction s) auto

lemma split_on_segment_no_sep: "x \<in> set (split_on d s) \<Longrightarrow> d \<notin> set x"
proof (induction s arbitrary: x)
  case Nil
  then show ?case by simp
next
  case (Cons c s)
  show ?case
  proof (cases "c = d")
    case True
    with Cons show ?thesis by auto
  next
    case False
    have ne: "split_on d s \<noteq> []" by (rule split_on_not_Nil)
    from Cons.prems False have "x = c # hd (split_on d s) \<or> x \<in> set (tl (split_on d s))"
      by (simp add: split_on_Cons_other del: split_on.simps)
    then show ?thesis
    proof
      assume "x = c # hd (split_on d s)"
      moreover have "d \<notin> set (hd (split_on d s))"
        using Cons.IH ne by simp
      ultimately show ?thesis using False by auto
    next
      assume "x \<in> set (tl (split_on d s))"
      then have "x \<in> set (split_on d s)" using ne by (meson list.set_sel(2))
      then show ?thesis by (rule Cons.IH)
    qed
  qed
qed

lemma segs_dropWhile: "segs (dropWhile (\<lambda>c. c = CHR ''/'') s) = segs s"
  by (induction s) (auto simp: segs_def)

lemma segs_hd_tl:
  "segs s = filter (\<lambda>x. x \<noteq> []) [hd (split_on (CHR ''/'') s)]
            @ filter (\<lambda>x. x \<noteq> []) (tl (split_on (CHR ''/'') s))"
  using split_on_not_Nil [of "CHR ''/''" s]
  by (cases "split_on (CHR ''/'') s") (auto simp: segs_def)

lemma replace_runs_split:
  "hd (split_on (CHR ''/'') (replace_runs (\<lambda>c. c = CHR ''/'') (CHR ''/'') s))
     = hd (split_on (CHR ''/'') s) \<and>
   filter (\<lambda>x. x \<noteq> []) (tl (split_on (CHR ''/'') (replace_runs (\<lambda>c. c = CHR ''/'') (CHR ''/'') s)))
     = filter (\<lambda>x. x \<noteq> []) (tl (split_on (CHR ''/'') s))"
proof (induction "\<lambda>c. c = CHR ''/''" "CHR ''/''" s rule: replace_runs.induct)
  case 1
  show ?case by simp
next
  case (2 c cs)
  show ?case
  proof (cases "c = CHR ''/''")
    case True
    have "segs (replace_runs (\<lambda>c. c = CHR ''/'') (CHR ''/'') (dropWhile (\<lambda>c. c = CHR ''/'') cs))
            = segs (dropWhile (\<lambda>c. c = CHR ''/'') cs)"
      using 2(1) [OF True] by (simp only: segs_hd_tl)
    then show ?thesis using True by (simp add: segs_dropWhile) (simp add: segs_def)
  next
    case False
    with 2(2) show ?thesis
      by (simp add: split_on_Cons_other del: split_on.simps)
  qed
qed

lemma segs_replace_runs: "segs (replace_runs (\<lambda>c. c = CHR ''/'') (CHR ''/'') s) = segs s"
  using replace_runs_split [of s] by (simp only: segs_hd_tl)

lemma replace_first_run_split:
  "hd (split_on (CHR ''/'') (replace_first_run (\<lambda>c. c = CHR ''/'') (CHR ''/'') s))
     = hd (split_on (CHR ''/'') s) \<and>
   filter (\<lambda>x. x \<noteq> []) (tl (split_on (CHR ''/'') (replace_first_run (\<lambda>c. c = CHR ''/'') (CHR ''/'') s)))
     = filter (\<lambda>x. x \<noteq> []) (tl (split_on (CHR ''/'') s))"
proof (induction s)
  case Nil
  show ?case by simp
next
  case (Cons c cs)
  show ?case
  proof (cases "c = CHR ''/''")
    case True
    have "segs (dropWhile (\<lambda>c. c = CHR ''/'') cs) = segs cs" by (rule segs_dropWhile)
    then show ?thesis using True by (simp add: segs_def)
  next
    case False
    with Cons show ?thesis
      by (simp add: split_on_Cons_other del: split_on.simps)
  qed
qed

lemma segs_replace_first_run:
  "segs (replace_first_run (\<lambda>c. c = CHR ''/'') (CHR ''/'') s) = segs s"
  using replace_first_run_split [of s] by (simp only: segs_hd_tl)

lemma segs_append: "segs (a @ CHR ''/'' # b) = segs a @ segs b"
  by (simp add: segs_def split_on_append)

lemma safe_loop_filter: "safe_loop ps acc = acc @ filter keep_seg ps"
  by (induction ps arbitrary: acc) (auto simp: keep_seg_def)

lemma filter_keep_segs: "filter keep_seg (segs s) = filter keep_seg (split_on (CHR ''/'') s)"
  by (auto simp: segs_def keep_seg_def intro: filter_cong)

lemma safeJoinPosix_eq:
  "safeJoinPosix pre rel =
     join_slash (filter keep_seg (split_on (CHR ''/'') pre) @ filter keep_seg (split_on (CHR ''/'') rel))"
proof -
  let ?j = "replace_runs (\<lambda>c. c = CHR ''/'') (CHR ''/'')
              (replace_first_run (\<lambda>c. c = CHR ''/'') (CHR ''/'') (pre @ ''/'' @ rel))"
  have "segs ?j = segs pre @ segs rel"
    by (simp add: segs_replace_runs segs_replace_first_run segs_append)
  moreover have "safeJoinPosix pre rel = join_slash (filter keep_seg (segs ?j))"
    by (simp add: safeJoinPosix_def Let_def safe_loop_filter segs_def del: filter_filter)
  ultimately show ?thesis
    by (simp add: filter_keep_segs)
qed

lemma split_join_slash:
  "xs \<noteq> [] \<Longrightarrow> \<forall>x\<in>set xs. CHR ''/'' \<notin> set x \<Longrightarrow> split_on (CHR ''/'') (join_slash xs) = xs"
proof (induction xs rule: join_slash.induct)
  case 1
  then show ?case by simp
next
  case (2 s)
  then show ?case by (simp add: split_on_no_sep)
next
  case (3 s t ts)
  then show ?case
    by (simp add: split_on_append split_on_no_sep del: split_on.simps)
qed

lemma join_slash_append:
  "xs \<noteq> [] \<Longrightarrow> ys \<noteq> [] \<Longrightarrow> join_slash (xs @ ys) = join_slash xs @ CHR ''/'' # join_slash ys"
proof (induction xs rule: join_slash.induct)
  case 1
  then show ?case by simp
next
  case (2 s)
  then show ?case by (cases ys) auto
next
  case (3 s t ts)
  then show ?case by simp
qed

lemma split_on_namespace:
  "split_on (CHR ''/'') (''sites/'' @ slug @ ''/'') = ''sites'' # split_on (CHR ''/'') slug @ [[]]"
proof -
  have "''sites/'' @ slug @ ''/'' = ''sites'' @ CHR ''/'' # (slug @ CHR ''/'' # [])" by simp
  then have "split_on (CHR ''/'') (''sites/'' @ slug @ ''/'')
               = split_on (CHR ''/'') ''sites'' @ split_on (CHR ''/'') slug @ split_on (CHR ''/'') []"
    by (simp only: split_on_append)
  then show ?thesis by simp
qed

lemma keep_seg_no_slash:
  "x \<in> set (filter keep_seg (split_on (CHR ''/'') s)) \<Longrightarrow> CHR ''/'' \<notin> set x"
  by (auto dest: split_on_segment_no_sep)

section \<open>Keys built by safeJoinPosix\<close>

text \<open>
  Claim C1, as the code has it.  For every namespace prefix \<open>sites/<slug>/\<close> and every
  relative path \<open>p\<close>, the key \<open>safeJoinPosix(prefix, p)\<close> is the namespace root, which is
  the key of the empty path, or it starts with that root followed by a slash; it has no
  \<open>..\<close> segment and no empty segment, however many \<open>..\<close> segments \<open>p\<close> has.  The root is
  \<open>sites/<slug>\<close>, without the final slash, for every slug that is one segment other
  than \<open>.\<close> and \<open>..\<close>.
\<close>

theorem safeJoinPosix_stays_under_root:
  "(let root = safeJoinPosix (''sites/'' @ slug @ ''/'') [];
        key = safeJoinPosix (''sites/'' @ slug @ ''/'') p
    in (key = root \<or> prefix (root @ ''/'') key)
       \<and> ''..'' \<notin> set (split_on (CHR ''/'') key)
       \<and> [] \<notin> set (split_on (CHR ''/'') key)
       \<and> (slug \<noteq> [] \<and> CHR ''/'' \<notin> set slug \<and> slug \<noteq> ''.'' \<and> slug \<noteq> ''..''
            \<longrightarrow> root = ''sites/'' @ slug))"
proof -
  define A where "A = filter keep_seg (split_on (CHR ''/'') (''sites/'' @ slug @ ''/''))"
  define B where "B = filter keep_seg (split_on (CHR ''/'') p)"
  have A: "A = ''sites'' # filter keep_seg (split_on (CHR ''/'') slug)"
    unfolding A_def split_on_namespace by (simp add: keep_seg_def)
  have root: "safeJoinPosix (''sites/'' @ slug @ ''/'') [] = join_slash A"
    by (simp add: safeJoinPosix_eq A_def keep_seg_def)
  have key: "safeJoinPosix (''sites/'' @ slug @ ''/'') p = join_slash (A @ B)"
    by (simp add: safeJoinPosix_eq A_def B_def)
  have noslash: "\<forall>x\<in>set (A @ B). CHR ''/'' \<notin> set x"
    unfolding A_def B_def using keep_seg_no_slash by auto
  have "A @ B \<noteq> []" using A by simp
  then have split: "split_on (CHR ''/'') (join_slash (A @ B)) = A @ B"
    using noslash by (rule split_join_slash)
  have keep: "\<forall>x\<in>set (A @ B). keep_seg x"
    by (auto simp: A_def B_def)
  have c1: "join_slash (A @ B) = join_slash A \<or> prefix (join_slash A @ ''/'') (join_slash (A @ B))"
  proof (cases "B = []")
    case True
    then show ?thesis by simp
  next
    case False
    have "A \<noteq> []" using A by simp
    then have "join_slash (A @ B) = join_slash A @ CHR ''/'' # join_slash B"
      using False by (rule join_slash_append)
    then show ?thesis by simp
  qed
  have c2: "''..'' \<notin> set (split_on (CHR ''/'') (join_slash (A @ B)))"
    using keep unfolding split by (auto simp: keep_seg_def)
  have c3: "[] \<notin> set (split_on (CHR ''/'') (join_slash (A @ B)))"
    using keep unfolding split by (auto simp: keep_seg_def)
  have c4: "slug \<noteq> [] \<and> CHR ''/'' \<notin> set slug \<and> slug \<noteq> ''.'' \<and> slug \<noteq> ''..''
              \<longrightarrow> join_slash A = ''sites/'' @ slug"
    by (simp add: A split_on_no_sep keep_seg_def)
  show ?thesis
    unfolding Let_def root key using c1 c2 c3 c4 by blast
qed

text \<open>The statement at the slug \<open>foo\<close> and a path that climbs twice.\<close>

theorem safeJoinPosix_stays_under_root_witness:
  "safeJoinPosix ''sites/foo/'' [] = ''sites/foo''
   \<and> prefix ''sites/foo/'' (safeJoinPosix ''sites/foo/'' ''a/../../b.txt'')
   \<and> ''..'' \<notin> set (split_on (CHR ''/'') (safeJoinPosix ''sites/foo/'' ''a/../../b.txt''))"
proof -
  have k: "safeJoinPosix ''sites/foo/'' ''a/../../b.txt'' \<noteq> ''sites/foo''" by code_simp
  show ?thesis
    using k safeJoinPosix_stays_under_root [of "''foo''" "''a/../../b.txt''"]
    unfolding Let_def by auto
qed

text \<open>
  Claim C1 as \<open>spec.md\<close> words it asks for the prefix \<open>sites/<slug>/\<close> itself, final
  slash included.  A path made of \<open>..\<close> segments only gives the root, which does not
  start with it.
\<close>

theorem safeJoinPosix_prefix_counterexample:
  "safeJoinPosix ''sites/foo/'' ''../..'' = ''sites/foo''
   \<and> \<not> prefix ''sites/foo/'' (safeJoinPosix ''sites/foo/'' ''../..'')"
  by code_simp

section \<open>The shape of a slug\<close>

text \<open>
  What holds of \<open>slugify\<close> on every input: the characters are of \<open>[a-z0-9-]\<close>, there are
  at most 63 of them, no two hyphens are adjacent, and the first character is no hyphen.
\<close>

lemma set_replace_runs: "set (replace_runs X r s) \<subseteq> insert r {c \<in> set s. \<not> X c}"
proof (induction X r s rule: replace_runs.induct)
  case (1 X r)
  show ?case by simp
next
  case (2 X r c cs)
  show ?case
  proof (cases "X c")
    case True
    have "set (dropWhile X cs) \<subseteq> set cs" by (auto dest: set_dropWhileD)
    with 2(1) [OF True] True show ?thesis by auto
  next
    case False
    with 2(2) show ?thesis by auto
  qed
qed

lemma set_strip_edge_hyphens: "set (strip_edge_hyphens s) \<subseteq> set s"
  by (cases s) (auto simp: strip_edge_hyphens_def dest: in_set_butlastD)

lemma slugify_chars: "c \<in> set (slugify s) \<Longrightarrow> is_slug_char c"
proof -
  assume a: "c \<in> set (slugify s)"
  define x where "x = toLowerCase (trim s)"
  define y where "y = replace_runs (\<lambda>c. \<not> is_slug_char c) (CHR ''-'') x"
  define z where "z = replace_runs (\<lambda>c. c = CHR ''-'') (CHR ''-'') y"
  have hy: "is_slug_char (CHR ''-'')" by (simp add: is_slug_char_def)
  from a have "c \<in> set (take 63 (strip_edge_hyphens z))"
    by (auto simp: slugify_def x_def y_def z_def split: if_splits)
  then have "c \<in> set z" using set_strip_edge_hyphens by (auto dest: in_set_takeD)
  then have "c = CHR ''-'' \<or> c \<in> set y" using set_replace_runs [of "\<lambda>c. c = CHR ''-''" "CHR ''-''" y]
    by (auto simp: z_def)
  then have "c = CHR ''-'' \<or> is_slug_char c"
    using set_replace_runs [of "\<lambda>c. \<not> is_slug_char c" "CHR ''-''" x] by (auto simp: y_def)
  with hy show ?thesis by auto
qed

lemma length_slugify: "length (slugify s) \<le> 63"
  by (simp add: slugify_def)

lemma slug_char_plain: "is_slug_char c \<Longrightarrow> c \<noteq> CHR ''/'' \<and> c \<noteq> CHR ''.''"
  by (auto simp: is_slug_char_def)

lemma slugify_one_segment:
  "slugify s \<noteq> [] \<Longrightarrow>
     CHR ''/'' \<notin> set (slugify s) \<and> CHR ''.'' \<notin> set (slugify s)"
  using slugify_chars slug_char_plain by blast

lemma hd_replace_runs:
  "s \<noteq> [] \<Longrightarrow> \<not> X (hd s) \<Longrightarrow> replace_runs X r s \<noteq> [] \<and> hd (replace_runs X r s) = hd s"
  by (cases s) auto

lemma replace_runs_no_double_aux:
  "X = (\<lambda>c. c = r) \<Longrightarrow> \<not> sublist [r, r] (replace_runs X r s)"
proof (induction X r s rule: replace_runs.induct)
  case (1 X r)
  show ?case by simp
next
  case (2 X r c cs)
  note X = \<open>X = (\<lambda>c. c = r)\<close>
  show ?case
  proof (cases "c = r")
    case True
    let ?d = "dropWhile X cs"
    have "\<not> prefix [r] (replace_runs X r ?d)"
    proof (cases "?d = []")
      case True
      have "replace_runs X r ?d = []" unfolding True by simp
      then show ?thesis by simp
    next
      case False
      then have "\<not> X (hd ?d)" using hd_dropWhile [of X cs] by simp
      with False hd_replace_runs [of ?d X r] X show ?thesis
        by (cases "replace_runs X r ?d") auto
    qed
    moreover have "\<not> sublist [r, r] (replace_runs X r ?d)"
      using 2(1) X True by simp
    ultimately show ?thesis using True X by (simp add: sublist_Cons_right)
  next
    case False
    with 2(2) X show ?thesis by (simp add: sublist_Cons_right)
  qed
qed

lemma replace_runs_no_double:
  "\<not> sublist [r, r] (replace_runs (\<lambda>c. c = r) r s)"
  by (rule replace_runs_no_double_aux) simp

lemma sublist_take_trans: "sublist xs (take n ys) \<Longrightarrow> sublist xs ys"
proof -
  assume "sublist xs (take n ys)"
  moreover have "sublist (take n ys) ys"
    by (simp add: prefix_imp_sublist take_is_prefix)
  ultimately show ?thesis by (rule sublist_order.order.trans)
qed

lemma sublist_strip_edge_hyphens: "sublist (strip_edge_hyphens s) s"
proof -
  define s1 where "s1 = (case s of [] \<Rightarrow> [] | c # cs \<Rightarrow> if c = CHR ''-'' then cs else c # cs)"
  have 1: "sublist s1 s"
    by (cases s) (auto simp: s1_def sublist_Cons_right)
  have 2: "sublist (if s1 \<noteq> [] \<and> last s1 = CHR ''-'' then butlast s1 else s1) s1"
    by (simp add: sublist_butlast)
  have "strip_edge_hyphens s = (if s1 \<noteq> [] \<and> last s1 = CHR ''-'' then butlast s1 else s1)"
    unfolding strip_edge_hyphens_def s1_def Let_def by (rule refl)
  with 2 have "sublist (strip_edge_hyphens s) s1" by (simp only:)
  then show ?thesis using 1 by (rule sublist_order.order.trans)
qed

lemma slugify_no_double_hyphen: "\<not> sublist ''--'' (slugify s)"
proof
  assume a: "sublist ''--'' (slugify s)"
  define y where "y = replace_runs (\<lambda>c. \<not> is_slug_char c) (CHR ''-'') (toLowerCase (trim s))"
  define z where "z = replace_runs (\<lambda>c. c = CHR ''-'') (CHR ''-'') y"
  have "s \<noteq> []" using a by (auto simp: slugify_def)
  then have "slugify s = take 63 (strip_edge_hyphens z)"
    unfolding slugify_def y_def z_def by simp
  with a have "sublist ''--'' (take 63 (strip_edge_hyphens z))" by (simp only:)
  then have "sublist ''--'' (strip_edge_hyphens z)" by (rule sublist_take_trans)
  then have "sublist ''--'' z"
    by (rule sublist_order.order.trans) (rule sublist_strip_edge_hyphens)
  then show False using replace_runs_no_double [of "CHR ''-''" y] by (simp add: z_def)
qed

lemma slugify_no_leading_hyphen: "slugify s \<noteq> [] \<Longrightarrow> hd (slugify s) \<noteq> CHR ''-''"
proof -
  assume ne: "slugify s \<noteq> []"
  define y where "y = replace_runs (\<lambda>c. \<not> is_slug_char c) (CHR ''-'') (toLowerCase (trim s))"
  define z where "z = replace_runs (\<lambda>c. c = CHR ''-'') (CHR ''-'') y"
  define s1 where "s1 = (case z of [] \<Rightarrow> [] | c # cs \<Rightarrow> if c = CHR ''-'' then cs else c # cs)"
  define s2 where "s2 = (if s1 \<noteq> [] \<and> last s1 = CHR ''-'' then butlast s1 else s1)"
  have "s \<noteq> []" using ne by (auto simp: slugify_def)
  then have "slugify s = take 63 (strip_edge_hyphens z)"
    unfolding slugify_def y_def z_def by simp
  moreover have "strip_edge_hyphens z = s2"
    unfolding strip_edge_hyphens_def s1_def s2_def Let_def by (rule refl)
  ultimately have sl: "slugify s = take 63 s2" by (simp only:)
  have nd: "\<not> sublist ''--'' z"
    using replace_runs_no_double [of "CHR ''-''" y] by (simp add: z_def)
  from ne sl have s2ne: "s2 \<noteq> []" by auto
  then have s1ne: "s1 \<noteq> []" by (auto simp: s2_def split: if_splits)
  have h1: "hd s1 \<noteq> CHR ''-''"
  proof (cases z)
    case Nil
    with s1ne show ?thesis by (simp add: s1_def)
  next
    case (Cons c cs)
    show ?thesis
    proof (cases "c = CHR ''-''")
      case True
      with Cons have s1: "s1 = cs" by (simp add: s1_def)
      with s1ne obtain d ds where cs: "cs = d # ds" by (cases cs) auto
      from nd Cons True cs have "d \<noteq> CHR ''-''" by (auto simp: sublist_Cons_right)
      with s1 cs show ?thesis by simp
    next
      case False
      with Cons show ?thesis by (simp add: s1_def)
    qed
  qed
  have "hd s2 = hd s1"
    using s2ne by (cases s1) (auto simp: s2_def split: if_splits)
  moreover have "hd (take 63 s2) = hd s2" using s2ne by (cases s2) auto
  ultimately show ?thesis using h1 sl by simp
qed

section \<open>What the store operations do\<close>

lemma hd_split_on_prefix: "prefix (hd (split_on d s)) s"
proof (induction s)
  case Nil
  show ?case by simp
next
  case (Cons c s)
  then show ?case
    using split_on_not_Nil [of d s] by (cases "split_on d s") auto
qed

lemma split_on_segment_sublist: "x \<in> set (split_on d s) \<Longrightarrow> sublist x s"
proof (induction s arbitrary: x)
  case Nil
  then show ?case by simp
next
  case (Cons c s)
  have ne: "split_on d s \<noteq> []" by (rule split_on_not_Nil)
  show ?case
  proof (cases "c = d")
    case True
    with Cons.prems have "x = [] \<or> x \<in> set (split_on d s)" by auto
    then show ?thesis using Cons.IH by (auto simp: sublist_Cons_right)
  next
    case False
    with Cons.prems have "x = c # hd (split_on d s) \<or> x \<in> set (tl (split_on d s))"
      by (simp add: split_on_Cons_other del: split_on.simps)
    then show ?thesis
    proof
      assume "x = c # hd (split_on d s)"
      then have "prefix x (c # s)" using hd_split_on_prefix [of d s] by simp
      then show ?thesis by (rule prefix_imp_sublist)
    next
      assume "x \<in> set (tl (split_on d s))"
      then have "x \<in> set (split_on d s)" using ne by (meson list.set_sel(2))
      then have "sublist x s" by (rule Cons.IH)
      then show ?thesis by (simp add: sublist_Cons_right)
    qed
  qed
qed

lemma upload_entry_skips:
  "etype e \<noteq> File \<or> sublist ''..'' (strip_leading_slashes (path e)) \<Longrightarrow>
     upload_entry mime slug e (st, up, sk) = Inr (st, up, sk + 1)"
  by (auto simp: upload_entry_def)

lemma next_fault_objects: "next_fault st = (f, st') \<Longrightarrow> objects st' = objects st \<and> calls st' = calls st"
  by (auto simp: next_fault_def split: list.splits)

lemma send_cmd_effect:
  "send_cmd c st = (f, st') \<Longrightarrow> objects st' = objects st \<and> calls st' = calls st @ [c]"
  unfolding send_cmd_def by (drule next_fault_objects) simp

lemma putObject_effect:
  "putObject k ob st = (r, st') \<Longrightarrow>
     calls st' = calls st @ [Put k] \<and>
     objects st' = (case r of Inl e \<Rightarrow> objects st | Inr u \<Rightarrow> (objects st)(k \<mapsto> ob))"
proof -
  assume a: "putObject k ob st = (r, st')"
  obtain f s1 where s: "send_cmd (Put k) st = (f, s1)" by (cases "send_cmd (Put k) st")
  from send_cmd_effect [OF s] a s show ?thesis
    by (cases f) (auto simp: putObject_def)
qed

lemma headObject_effect:
  "headObject k st = (r, st') \<Longrightarrow> calls st' = calls st @ [Head k] \<and> objects st' = objects st"
proof -
  assume a: "headObject k st = (r, st')"
  obtain f s1 where s: "send_cmd (Head k) st = (f, s1)" by (cases "send_cmd (Head k) st")
  from send_cmd_effect [OF s] a s show ?thesis
    by (cases f) (auto simp: headObject_def split: option.splits)
qed

lemma projectExists_effect:
  "projectExists slug st = (b, st') \<Longrightarrow>
     calls st' = calls st @ [Head (META_PREFIX @ slug @ ''.json'')] \<and> objects st' = objects st"
proof -
  assume a: "projectExists slug st = (b, st')"
  obtain r s1 where s: "headObject (META_PREFIX @ slug @ ''.json'') st = (r, s1)"
    by (cases "headObject (META_PREFIX @ slug @ ''.json'') st")
  from headObject_effect [OF s] a s show ?thesis
    by (cases r) (auto simp: projectExists_def)
qed

section \<open>Keys written by the upload route\<close>

lemma site_key:
  assumes "slug \<noteq> []" "CHR ''/'' \<notin> set slug" "CHR ''.'' \<notin> set slug"
  shows "safeJoinPosix (SITES_PREFIX @ slug) rel =
           ''sites/'' @ slug @
             (if filter keep_seg (split_on (CHR ''/'') rel) = [] then []
              else CHR ''/'' # join_slash (filter keep_seg (split_on (CHR ''/'') rel)))"
proof -
  let ?B = "filter keep_seg (split_on (CHR ''/'') rel)"
  have "SITES_PREFIX @ slug = ''sites'' @ CHR ''/'' # slug" by (simp add: SITES_PREFIX_def)
  then have "split_on (CHR ''/'') (SITES_PREFIX @ slug)
               = split_on (CHR ''/'') ''sites'' @ split_on (CHR ''/'') slug"
    by (simp only: split_on_append)
  then have sp: "split_on (CHR ''/'') (SITES_PREFIX @ slug) = [''sites'', slug]"
    using assms(2) by (simp add: split_on_no_sep)
  have "slug \<noteq> ''.''" "slug \<noteq> ''..''" using assms(3) by auto
  then have A: "filter keep_seg (split_on (CHR ''/'') (SITES_PREFIX @ slug)) = [''sites'', slug]"
    unfolding sp using assms(1) by (simp add: keep_seg_def)
  have key: "safeJoinPosix (SITES_PREFIX @ slug) rel = join_slash ([''sites'', slug] @ ?B)"
    unfolding safeJoinPosix_eq A ..
  show ?thesis
  proof (cases "?B = []")
    case True
    then show ?thesis unfolding key by simp
  next
    case False
    have "join_slash ([''sites'', slug] @ ?B) = join_slash [''sites'', slug] @ CHR ''/'' # join_slash ?B"
      by (rule join_slash_append) (use False in simp_all)
    then show ?thesis unfolding key using False by simp
  qed
qed

lemma site_key_under:
  assumes "slug \<noteq> []" "CHR ''/'' \<notin> set slug" "CHR ''.'' \<notin> set slug"
  shows "under_site slug (safeJoinPosix (SITES_PREFIX @ slug) rel)"
  unfolding site_key [OF assms] under_site_def by simp

lemma only_writes_refl: "only_writes P st st"
  by (simp add: only_writes_def)

lemma only_writes_trans:
  "only_writes P a b \<Longrightarrow> only_writes P b c \<Longrightarrow> only_writes P a c"
  unfolding only_writes_def by (elim conjE exE) (rule conjI, simp, rule_tac x = "cs @ csa" in exI, auto)

lemma only_writes_put:
  "P k \<Longrightarrow> putObject k ob st = (r, st') \<Longrightarrow> only_writes P st st'"
  by (drule putObject_effect) (cases r; auto simp: only_writes_def)

lemma only_writes_projectExists:
  "projectExists slug st = (b, st') \<Longrightarrow> only_writes P st st'"
  by (drule projectExists_effect) (auto simp: only_writes_def)

lemma upload_entry_only_writes:
  assumes "slug \<noteq> []" "CHR ''/'' \<notin> set slug" "CHR ''.'' \<notin> set slug"
  shows "upload_entry mime slug e (st, up, sk) = Inl st' \<Longrightarrow> only_writes (under_site slug) st st'"
    and "upload_entry mime slug e (st, up, sk) = Inr (st', up', sk') \<Longrightarrow>
           only_writes (under_site slug) st st'"
  using site_key_under [OF assms]
  by (auto simp: upload_entry_def Let_def only_writes_refl
           split: if_splits prod.splits sum.splits
           intro: only_writes_put)

lemma upload_entries_only_writes:
  assumes "slug \<noteq> []" "CHR ''/'' \<notin> set slug" "CHR ''.'' \<notin> set slug"
  shows "only_writes (under_site slug) st
           (case upload_entries mime slug es (st, up, sk) of Inl st' \<Rightarrow> st' | Inr (st', u, s) \<Rightarrow> st')"
proof (induction es arbitrary: st up sk)
  case Nil
  show ?case by (simp add: only_writes_refl)
next
  case (Cons e es)
  show ?case
  proof (cases "upload_entry mime slug e (st, up, sk)")
    case (Inl st1)
    then show ?thesis using upload_entry_only_writes(1) [OF assms] by simp
  next
    case (Inr acc)
    obtain st1 up1 sk1 where acc: "acc = (st1, up1, sk1)" by (cases acc)
    have "only_writes (under_site slug) st st1"
      using Inr upload_entry_only_writes(2) [OF assms] unfolding acc by blast
    then show ?thesis
      using Cons.IH [of st1 up1 sk1] Inr acc by (auto intro: only_writes_trans)
  qed
qed

lemma upload_entry_counts:
  "upload_entry mime slug e (st, up, sk) = Inr (st', up', sk') \<Longrightarrow> up' + sk' = up + sk + 1"
  by (auto simp: upload_entry_def Let_def split: if_splits prod.splits sum.splits)

lemma upload_entries_counts:
  "upload_entries mime slug es (st, up, sk) = Inr (st', up', sk') \<Longrightarrow>
     up' + sk' = up + sk + length es"
proof (induction es arbitrary: st up sk)
  case Nil
  then show ?case by simp
next
  case (Cons e es)
  then obtain st1 up1 sk1 where
    1: "upload_entry mime slug e (st, up, sk) = Inr (st1, up1, sk1)" and
    2: "upload_entries mime slug es (st1, up1, sk1) = Inr (st', up', sk')"
    by (auto split: sum.splits)
  from upload_entry_counts [OF 1] Cons.IH [OF 2] show ?case by simp
qed

lemma upload_route_ok:
  assumes "upload_route cfg mime req st = (UploadOk up sk u, st')"
  shows "\<exists>files st1. req_file req = Some (Listing files) \<and> length files \<le> 2000 \<and>
           slugify (slug_param req) \<noteq> [] \<and> objects st1 = objects st \<and>
           upload_entries mime (slugify (slug_param req)) files (st1, 0, 0) = Inr (st', up, sk)"
proof -
  let ?slug = "slugify (slug_param req)"
  obtain b st1 where pe: "projectExists ?slug st = (b, st1)" by (cases "projectExists ?slug st")
  have o: "objects st1 = objects st" using projectExists_effect [OF pe] by simp
  from assms pe have ne: "?slug \<noteq> []" and b: b
    by (auto simp: upload_route_def Let_def split: if_splits bool.splits)
  from assms pe ne b obtain files where f: "req_file req = Some (Listing files)"
    by (auto simp: upload_route_def Let_def split: option.splits zip_file.splits)
  from assms pe ne b f have len: "length files \<le> 2000"
    by (auto simp: upload_route_def Let_def split: if_splits)
  from assms pe ne b f len
  have "upload_entries mime ?slug files (st1, 0, 0) = Inr (st', up, sk)"
    by (auto simp: upload_route_def Let_def split: sum.splits)
  with f len ne o show ?thesis by blast
qed

lemma upload_route_only_writes:
  assumes "upload_route cfg mime req st = (resp, st')"
  shows "only_writes (under_site (slugify (slug_param req))) st st'"
proof -
  let ?slug = "slugify (slug_param req)"
  show ?thesis
  proof (cases "?slug = []")
    case True
    with assms show ?thesis by (simp add: upload_route_def only_writes_refl)
  next
    case False
    note seg = slugify_one_segment [OF False]
    obtain b st1 where pe: "projectExists ?slug st = (b, st1)" by (cases "projectExists ?slug st")
    have w1: "only_writes (under_site ?slug) st st1" by (rule only_writes_projectExists [OF pe])
    let ?loop = "\<lambda>files. upload_entries mime ?slug files (st1, 0, 0)"
    have w2: "only_writes (under_site ?slug) st1
                (case ?loop files of Inl s \<Rightarrow> s | Inr (s, u, k) \<Rightarrow> s)" for files
      using upload_entries_only_writes [of ?slug st1 mime files 0 0] False seg by simp
    have "st' = st1 \<or> (\<exists>files. st' = (case ?loop files of Inl s \<Rightarrow> s | Inr (s, u, k) \<Rightarrow> s))"
    proof (cases "\<exists>files. b \<and> req_file req = Some (Listing files) \<and> \<not> 2000 < length files")
      case True
      then obtain files where f: "b" "req_file req = Some (Listing files)" "\<not> 2000 < length files"
        by blast
      have "st' = (case ?loop files of Inl s \<Rightarrow> s | Inr (s, u, k) \<Rightarrow> s)"
        using assms pe False f
        by (auto simp: upload_route_def Let_def split: sum.splits)
      then show ?thesis by blast
    next
      case no: False
      have "st' = st1"
        using assms pe False no
        by (auto simp: upload_route_def Let_def
                 split: if_splits bool.splits option.splits zip_file.splits)
      then show ?thesis by blast
    qed
    then show ?thesis
    proof
      assume "st' = st1"
      with w1 show ?thesis by simp
    next
      assume "\<exists>files. st' = (case ?loop files of Inl s \<Rightarrow> s | Inr (s, u, k) \<Rightarrow> s)"
      then obtain files where "st' = (case ?loop files of Inl s \<Rightarrow> s | Inr (s, u, k) \<Rightarrow> s)" ..
      with w2 [of files] have "only_writes (under_site ?slug) st1 st'" by simp
      with w1 show ?thesis by (rule only_writes_trans)
    qed
  qed
qed

lemma upload_entry_effect:
  "\<exists>M a b. \<forall>st up sk st' up' sk'.
      upload_entry mime slug e (st, up, sk) = Inr (st', up', sk') \<longrightarrow>
        objects st' = objects st ++ M \<and> up' = up + a \<and> sk' = sk + b"
proof (cases "etype e \<noteq> File \<or> sublist ''..'' (strip_leading_slashes (path e))")
  case True
  have "\<forall>st up sk st' up' sk'.
      upload_entry mime slug e (st, up, sk) = Inr (st', up', sk') \<longrightarrow>
        objects st' = objects st ++ Map.empty \<and> up' = up + 0 \<and> sk' = sk + 1"
    using upload_entry_skips [OF True] by simp
  then show ?thesis by blast
next
  case False
  define rel where "rel = strip_leading_slashes (path e)"
  define k where "k = safeJoinPosix (SITES_PREFIX @ slug) rel"
  define ob where "ob = \<lparr>Body = data e,
     ContentType = or_else (lookupContentType mime rel) (Some ''application/octet-stream''),
     CacheControl = Some (if suffix ''.html'' (toLowerCase rel) then ''no-cache''
                          else ''public, max-age=86400'')\<rparr>"
  have step: "upload_entry mime slug e (st, up, sk) =
          (case putObject k ob st of (Inl err, s) \<Rightarrow> Inl s | (Inr u, s) \<Rightarrow> Inr (s, up + 1, sk))"
    for st up sk
    using False by (simp add: upload_entry_def Let_def rel_def k_def ob_def)
  have "\<forall>st up sk st' up' sk'.
      upload_entry mime slug e (st, up, sk) = Inr (st', up', sk') \<longrightarrow>
        objects st' = objects st ++ [k \<mapsto> ob] \<and> up' = up + 1 \<and> sk' = sk + 0"
  proof (intro allI impI)
    fix st up sk st' up' sk'
    assume a: "upload_entry mime slug e (st, up, sk) = Inr (st', up', sk')"
    obtain r s where p: "putObject k ob st = (r, s)" by (cases "putObject k ob st")
    from a p have "r = Inr ()" "s = st'" "up' = up + 1" "sk' = sk"
      unfolding step by (auto split: sum.splits)
    with putObject_effect [OF p]
    show "objects st' = objects st ++ [k \<mapsto> ob] \<and> up' = up + 1 \<and> sk' = sk + 0"
      by simp
  qed
  then show ?thesis by blast
qed

lemma upload_entries_effect:
  "\<exists>M a b. \<forall>st up sk st' up' sk'.
      upload_entries mime slug es (st, up, sk) = Inr (st', up', sk') \<longrightarrow>
        objects st' = objects st ++ M \<and> up' = up + a \<and> sk' = sk + b"
proof (induction es)
  case Nil
  have "\<forall>st up sk st' up' sk'.
      upload_entries mime slug [] (st, up, sk) = Inr (st', up', sk') \<longrightarrow>
        objects st' = objects st ++ Map.empty \<and> up' = up + 0 \<and> sk' = sk + 0"
    by simp
  then show ?case by blast
next
  case (Cons e es)
  from upload_entry_effect [of mime slug e] obtain M1 a1 b1 where
    1: "\<And>st up sk st' up' sk'. upload_entry mime slug e (st, up, sk) = Inr (st', up', sk') \<Longrightarrow>
          objects st' = objects st ++ M1 \<and> up' = up + a1 \<and> sk' = sk + b1"
    by blast
  from Cons.IH obtain M2 a2 b2 where
    2: "\<And>st up sk st' up' sk'. upload_entries mime slug es (st, up, sk) = Inr (st', up', sk') \<Longrightarrow>
          objects st' = objects st ++ M2 \<and> up' = up + a2 \<and> sk' = sk + b2"
    by blast
  have "\<forall>st up sk st' up' sk'.
      upload_entries mime slug (e # es) (st, up, sk) = Inr (st', up', sk') \<longrightarrow>
        objects st' = objects st ++ (M1 ++ M2) \<and> up' = up + (a1 + a2) \<and> sk' = sk + (b1 + b2)"
  proof (intro allI impI)
    fix st up sk st' up' sk'
    assume a: "upload_entries mime slug (e # es) (st, up, sk) = Inr (st', up', sk')"
    then obtain s1 u1 k1 where
      e1: "upload_entry mime slug e (st, up, sk) = Inr (s1, u1, k1)" and
      e2: "upload_entries mime slug es (s1, u1, k1) = Inr (st', up', sk')"
      by (auto split: sum.splits)
    from 1 [OF e1] 2 [OF e2]
    show "objects st' = objects st ++ (M1 ++ M2) \<and> up' = up + (a1 + a2) \<and> sk' = sk + (b1 + b2)"
      by simp
  qed
  then show ?case by blast
qed

lemma map_add_twice: "(m ++ M) ++ M = m ++ (M :: 'a \<rightharpoonup> 'b)"
  by (rule ext) (simp add: map_add_def split: option.splits)

text \<open>
  Claim C2, as the code has it.  For every slug parameter and every archive, the upload
  route changes no object and sends no put outside the site of the slug, which is the
  key \<open>sites/<slug>\<close> itself and the keys that start with \<open>sites/<slug>/\<close>.  An entry
  that is no file, or whose path has a \<open>..\<close> segment once the leading slashes are gone,
  makes the loop go on with the same store and one more skipped.  The counts of a
  successful response add up to the number of entries.
\<close>

theorem upload_route_stays_in_site:
  assumes "upload_route cfg mime req st = (resp, st')"
  shows "(\<forall>k. \<not> under_site (slugify (slug_param req)) k \<longrightarrow>
            objects st' k = objects st k \<and> (Put k \<in> set (calls st') \<longrightarrow> Put k \<in> set (calls st)))
       \<and> (\<forall>slug e es s up sk.
            etype e \<noteq> File \<or> ''..'' \<in> set (split_on (CHR ''/'') (strip_leading_slashes (path e)))
            \<longrightarrow> upload_entries mime slug (e # es) (s, up, sk)
                  = upload_entries mime slug es (s, up, sk + 1))
       \<and> (\<forall>files up sk u. req_file req = Some (Listing files) \<and> resp = UploadOk up sk u
            \<longrightarrow> up + sk = length files)"
proof (intro conjI allI impI)
  fix k
  assume nu: "\<not> under_site (slugify (slug_param req)) k"
  from upload_route_only_writes [OF assms] obtain cs where
    o: "\<forall>k. \<not> under_site (slugify (slug_param req)) k \<longrightarrow> objects st' k = objects st k" and
    c: "calls st' = calls st @ cs" and
    p: "\<forall>k. Put k \<in> set cs \<longrightarrow> under_site (slugify (slug_param req)) k"
    unfolding only_writes_def by blast
  from o nu show "objects st' k = objects st k" by blast
  assume "Put k \<in> set (calls st')"
  with c p nu show "Put k \<in> set (calls st)" by auto
next
  fix slug and e :: entry and es and s :: store and up sk :: nat
  assume "etype e \<noteq> File \<or> ''..'' \<in> set (split_on (CHR ''/'') (strip_leading_slashes (path e)))"
  then have "etype e \<noteq> File \<or> sublist ''..'' (strip_leading_slashes (path e))"
    using split_on_segment_sublist by blast
  then have "upload_entry mime slug e (s, up, sk) = Inr (s, up, sk + 1)"
    by (rule upload_entry_skips)
  then show "upload_entries mime slug (e # es) (s, up, sk)
               = upload_entries mime slug es (s, up, sk + 1)"
    by simp
next
  fix files up sk u
  assume a: "req_file req = Some (Listing files) \<and> resp = UploadOk up sk u"
  with assms have "upload_route cfg mime req st = (UploadOk up sk u, st')" by simp
  from upload_route_ok [OF this] a obtain st1 where
    "upload_entries mime (slugify (slug_param req)) files (st1, 0, 0) = Inr (st', up, sk)"
    by auto
  from upload_entries_counts [OF this] show "up + sk = length files" by simp
qed

text \<open>
  The statement at the upload of \<open>index.html\<close>, a directory and \<open>../../etc/passwd\<close> to
  the project \<open>demo\<close>.
\<close>

theorem upload_route_stays_in_site_witness:
  "fst (upload_route default_config sample_mime demo_upload demo_store)
     = UploadOk 1 2 ''https://demo.quick-stage.app/''
   \<and> 1 + 2 = length demo_files
   \<and> objects (snd (upload_route default_config sample_mime demo_upload demo_store)) ''etc/passwd''
       = None
   \<and> Put ''etc/passwd''
       \<notin> set (calls (snd (upload_route default_config sample_mime demo_upload demo_store)))
   \<and> upload_entries sample_mime ''demo'' [passwd_entry] (demo_store, 0, 0)
       = Inr (demo_store, 0, 1)"
proof -
  let ?r = "upload_route default_config sample_mime demo_upload demo_store"
  have f: "fst ?r = UploadOk 1 2 ''https://demo.quick-stage.app/''" by code_simp
  then have r: "?r = (UploadOk 1 2 ''https://demo.quick-stage.app/'', snd ?r)"
    by (metis prod.collapse)
  note T = upload_route_stays_in_site [OF r]
  have nu: "\<not> under_site (slugify (slug_param demo_upload)) ''etc/passwd''" by code_simp
  have seg: "''..'' \<in> set (split_on (CHR ''/'') (strip_leading_slashes (path passwd_entry)))"
    by code_simp
  have fl: "req_file demo_upload = Some (Listing demo_files)" by (simp add: demo_upload_def)
  have 1: "objects (snd ?r) ''etc/passwd'' = objects demo_store ''etc/passwd''"
    and 2: "Put ''etc/passwd'' \<in> set (calls (snd ?r)) \<longrightarrow> Put ''etc/passwd'' \<in> set (calls demo_store)"
    using T nu by blast+
  have 3: "upload_entries sample_mime ''demo'' (passwd_entry # []) (demo_store, 0, 0)
             = upload_entries sample_mime ''demo'' [] (demo_store, 0, 0 + 1)"
    using T seg by blast
  have 4: "1 + 2 = length demo_files" using T fl by blast
  from f 1 2 3 4 show ?thesis by (simp add: demo_store_def)
qed

text \<open>
  Claim C2 as \<open>spec.md\<close> words it has every written key under \<open>sites/<slug>/\<close>.  A file
  entry named \<open>.\<close> is written at \<open>sites/demo\<close>, which does not start with
  \<open>sites/demo/\<close>.
\<close>

theorem upload_outside_namespace_counterexample:
  "calls (snd (upload_route default_config sample_mime dot_upload demo_store))
     = [Head ''__meta/projects/demo.json'', Put ''sites/demo'']
   \<and> map_option Body
        (objects (snd (upload_route default_config sample_mime dot_upload demo_store)) ''sites/demo'')
       = Some ''x''
   \<and> \<not> prefix ''sites/demo/'' ''sites/demo''"
  by code_simp

section \<open>The entry ceiling\<close>

text \<open>
  Claim C4.  For every archive of more than 2000 entries the upload route answers with an
  error and the objects of the store are unchanged; no put is sent.  When the slug is
  valid and the project exists, the answer is the validation error 400 of line 160, and
  the store is the one the existence check left: nothing was sent after it.
\<close>

theorem upload_route_rejects_big_archive:
  assumes "req_file req = Some (Listing files)" and "length files > 2000"
  shows "fst (upload_route cfg mime req st)
           \<in> {UploadError 400 ''Invalid project slug'',
              UploadError 404 ''Project not found. Create it first.'',
              UploadError 400 ''Zip has too many files (max 2000).''}
       \<and> objects (snd (upload_route cfg mime req st)) = objects st
       \<and> (\<forall>k. Put k \<in> set (calls (snd (upload_route cfg mime req st)))
               \<longrightarrow> Put k \<in> set (calls st))
       \<and> (slugify (slug_param req) \<noteq> [] \<and> fst (projectExists (slugify (slug_param req)) st)
            \<longrightarrow> upload_route cfg mime req st
                  = (UploadError 400 ''Zip has too many files (max 2000).'',
                     snd (projectExists (slugify (slug_param req)) st)))"
proof -
  let ?slug = "slugify (slug_param req)"
  obtain b st1 where pe: "projectExists ?slug st = (b, st1)" by (cases "projectExists ?slug st")
  note eff = projectExists_effect [OF pe]
  show ?thesis
  proof (cases "?slug = []")
    case True
    then have "upload_route cfg mime req st = (UploadError 400 ''Invalid project slug'', st)"
      by (simp add: upload_route_def)
    with True show ?thesis by simp
  next
    case False
    show ?thesis
    proof (cases b)
      case True
      have "upload_route cfg mime req st
              = (UploadError 400 ''Zip has too many files (max 2000).'', st1)"
        using False True pe assms by (simp add: upload_route_def)
      with eff pe show ?thesis by simp
    next
      case no: False
      have "upload_route cfg mime req st
              = (UploadError 404 ''Project not found. Create it first.'', st1)"
        using False no pe by (simp add: upload_route_def)
      with eff pe no show ?thesis by simp
    qed
  qed
qed

text \<open>The statement at an archive of 2001 files for the project \<open>demo\<close>.\<close>

theorem upload_route_rejects_big_archive_witness:
  "upload_route default_config sample_mime big_upload demo_store
     = (UploadError 400 ''Zip has too many files (max 2000).'',
        snd (projectExists ''demo'' demo_store))
   \<and> objects (snd (upload_route default_config sample_mime big_upload demo_store))
       = objects demo_store
   \<and> calls (snd (upload_route default_config sample_mime big_upload demo_store))
       = [Head ''__meta/projects/demo.json'']"
proof -
  have f: "req_file big_upload
             = Some (Listing (replicate 2001 \<lparr>etype = File, path = ''a.txt'', data = ''a''\<rparr>))"
    by (simp add: big_upload_def)
  have l: "length (replicate 2001 \<lparr>etype = File, path = ''a.txt'', data = ''a''\<rparr>) > 2000"
    by simp
  have s: "slugify (slug_param big_upload) = ''demo''" by code_simp
  have p: "fst (projectExists ''demo'' demo_store)" by code_simp
  have c: "calls (snd (projectExists ''demo'' demo_store)) = [Head ''__meta/projects/demo.json'']"
    by code_simp
  have o: "objects (snd (projectExists ''demo'' demo_store)) = objects demo_store"
    using projectExists_effect [of "''demo''" demo_store
            "fst (projectExists ''demo'' demo_store)" "snd (projectExists ''demo'' demo_store)"]
    by simp
  from upload_route_rejects_big_archive [OF f l, of default_config sample_mime demo_store] s p c o
  show ?thesis by simp
qed

section \<open>The test on two dots\<close>

text \<open>
  Claim C10.  A file entry whose path, leading slashes stripped, contains the two
  characters \<open>..\<close> anywhere makes the loop go on with the same store, nothing sent, and
  one more skipped.  Every path with a \<open>..\<close> segment contains them, and so do
  \<open>notes..txt\<close> and \<open>a..b/file.css\<close>, which have no \<open>..\<close> segment: the test rejects
  strictly more than the paths with a parent-directory segment.
\<close>

theorem upload_skips_every_double_dot:
  "(etype e = File \<and> sublist ''..'' (strip_leading_slashes (path e))
      \<longrightarrow> upload_entries mime slug (e # es) (st, up, sk)
            = upload_entries mime slug es (st, up, sk + 1))
   \<and> (''..'' \<in> set (split_on (CHR ''/'') p) \<longrightarrow> sublist ''..'' p)
   \<and> sublist ''..'' ''notes..txt'' \<and> ''..'' \<notin> set (split_on (CHR ''/'') ''notes..txt'')
   \<and> sublist ''..'' ''a..b/file.css'' \<and> ''..'' \<notin> set (split_on (CHR ''/'') ''a..b/file.css'')"
proof -
  have 1: "etype e = File \<and> sublist ''..'' (strip_leading_slashes (path e))
      \<longrightarrow> upload_entries mime slug (e # es) (st, up, sk)
            = upload_entries mime slug es (st, up, sk + 1)"
    using upload_entry_skips [of e mime slug st up sk] by auto
  have 2: "''..'' \<in> set (split_on (CHR ''/'') p) \<longrightarrow> sublist ''..'' p"
    using split_on_segment_sublist by blast
  have 3: "sublist ''..'' ''notes..txt'' \<and> ''..'' \<notin> set (split_on (CHR ''/'') ''notes..txt'')"
    by code_simp
  have 4: "sublist ''..'' ''a..b/file.css'' \<and> ''..'' \<notin> set (split_on (CHR ''/'') ''a..b/file.css'')"
    by code_simp
  from 1 2 3 4 show ?thesis by blast
qed

text \<open>The statement at the entry \<open>/notes..txt\<close> and at the path \<open>docs/../x\<close>.\<close>

theorem upload_skips_every_double_dot_witness:
  "upload_entries sample_mime ''demo'' [notes_entry] (demo_store, 0, 0) = Inr (demo_store, 0, 1)
   \<and> sublist ''..'' ''docs/../x''
   \<and> fst (upload_route default_config sample_mime
             \<lparr>slug_param = ''demo'', req_file = Some (Listing [notes_entry])\<rparr> demo_store)
       = UploadOk 0 1 ''https://demo.quick-stage.app/''"
proof -
  have h: "etype notes_entry = File \<and> sublist ''..'' (strip_leading_slashes (path notes_entry))"
    by code_simp
  have g: "''..'' \<in> set (split_on (CHR ''/'') ''docs/../x'')" by code_simp
  have r: "fst (upload_route default_config sample_mime
             \<lparr>slug_param = ''demo'', req_file = Some (Listing [notes_entry])\<rparr> demo_store)
       = UploadOk 0 1 ''https://demo.quick-stage.app/''"
    by code_simp
  from upload_skips_every_double_dot
         [of notes_entry sample_mime "''demo''" "[]" demo_store 0 0 "''docs/../x''"] h g r
  show ?thesis by simp
qed

section \<open>Uploading the same archive twice\<close>

text \<open>
  Claim C9.  When the upload of an archive to a project succeeds, and the same upload is
  run again on a store that holds the objects the first run left, and succeeds too, the
  second run leaves the same objects, key by key, and both report the same counts.
\<close>

theorem upload_twice_same_store:
  assumes "upload_route cfg mime req st = (UploadOk up sk u, st1)"
    and "objects sa = objects st1"
    and "upload_route cfg mime req sa = (UploadOk up' sk' u', st2)"
  shows "objects st2 = objects st1 \<and> up' = up \<and> sk' = sk"
proof -
  let ?slug = "slugify (slug_param req)"
  from upload_route_ok [OF assms(1)] obtain files s0 where
    f: "req_file req = Some (Listing files)" and o1: "objects s0 = objects st" and
    l1: "upload_entries mime ?slug files (s0, 0, 0) = Inr (st1, up, sk)"
    by blast
  from upload_route_ok [OF assms(3)] f obtain sb where
    o2: "objects sb = objects sa" and
    l2: "upload_entries mime ?slug files (sb, 0, 0) = Inr (st2, up', sk')"
    by auto
  from upload_entries_effect [of mime ?slug files] obtain M a b where
    e: "\<And>st up sk st' up' sk'. upload_entries mime ?slug files (st, up, sk) = Inr (st', up', sk')
          \<Longrightarrow> objects st' = objects st ++ M \<and> up' = up + a \<and> sk' = sk + b"
    by blast
  from e [OF l1] have 1: "objects st1 = objects st ++ M" "up = a" "sk = b"
    using o1 by simp_all
  from e [OF l2] have 2: "objects st2 = objects st1 ++ M" "up' = a" "sk' = b"
    using o2 assms(2) by simp_all
  have "objects st2 = objects st1" unfolding 2(1) unfolding 1(1) by (rule map_add_twice)
  with 1 2 show ?thesis by simp
qed

text \<open>The statement at the upload to the project \<open>demo\<close>, run twice in a row.\<close>

theorem upload_twice_same_store_witness:
  "fst (upload_route default_config sample_mime demo_upload
          (snd (upload_route default_config sample_mime demo_upload demo_store)))
     = fst (upload_route default_config sample_mime demo_upload demo_store)
   \<and> fst (upload_route default_config sample_mime demo_upload demo_store)
       = UploadOk 1 2 ''https://demo.quick-stage.app/''
   \<and> objects (snd (upload_route default_config sample_mime demo_upload
                      (snd (upload_route default_config sample_mime demo_upload demo_store))))
       = objects (snd (upload_route default_config sample_mime demo_upload demo_store))"
proof -
  let ?r1 = "upload_route default_config sample_mime demo_upload demo_store"
  let ?r2 = "upload_route default_config sample_mime demo_upload (snd ?r1)"
  have f1: "fst ?r1 = UploadOk 1 2 ''https://demo.quick-stage.app/''" by code_simp
  have f2: "fst ?r2 = UploadOk 1 2 ''https://demo.quick-stage.app/''" by code_simp
  have r1: "?r1 = (UploadOk 1 2 ''https://demo.quick-stage.app/'', snd ?r1)"
    using f1 by (metis prod.collapse)
  have r2: "?r2 = (UploadOk 1 2 ''https://demo.quick-stage.app/'', snd ?r2)"
    using f2 by (metis prod.collapse)
  from upload_twice_same_store [OF r1 refl r2] f1 f2 show ?thesis by simp
qed

section \<open>Resolving the project of a host\<close>

lemma lower_char_idem: "lower_char (lower_char c) = lower_char c"
  by (auto simp: lower_char_def is_upper_def Let_def)

lemma toLowerCase_idem: "toLowerCase (toLowerCase s) = toLowerCase s"
  by (simp add: toLowerCase_def lower_char_idem)

lemma getProjectFromHost_slug:
  "getProjectFromHost cfg host = Some p \<Longrightarrow> \<exists>x. p = slugify x"
  by (auto simp: getProjectFromHost_def Let_def split: if_splits)

text \<open>
  Claim C7, as the code has it.  Let \<open>h\<close> be the host, cut at the first colon and in
  lower case.  When \<open>h\<close> is a configured main host or the base domain, there is no
  project.  When \<open>h\<close> is no main host and ends with a dot and the base domain, the result
  is the slug of the first dot-separated segment of what precedes that suffix, so
  \<open>a.b.<base>\<close> gives the slug of \<open>a\<close>.  When \<open>h\<close> does not end with a dot and the base
  domain, there is no project.  A result that is \<open>null\<close> or the empty slug is "no
  project" for the serving route: it answers 404 without a request to the store.
\<close>

theorem getProjectFromHost_cases:
  "(let h = toLowerCase (takeWhile (\<lambda>c. c \<noteq> CHR '':'') host);
        base = toLowerCase (HOSTING_BASE_DOMAIN cfg)
    in (h \<in> set (MAIN_HOSTS cfg) \<or> h = HOSTING_BASE_DOMAIN cfg
          \<longrightarrow> getProjectFromHost cfg host = None)
     \<and> (h \<notin> set (MAIN_HOSTS cfg) \<and> h = pre @ ''.'' @ base
          \<longrightarrow> getProjectFromHost cfg host = Some (slugify (takeWhile (\<lambda>c. c \<noteq> CHR ''.'') pre)))
     \<and> (\<not> suffix (''.'' @ base) h \<longrightarrow> getProjectFromHost cfg host = None)
     \<and> (getProjectFromHost cfg host = None \<or> getProjectFromHost cfg host = Some []
          \<longrightarrow> serve_route cfg mime host p st = (send_not_found fresh_res, [], st)))"
proof -
  define h where "h = toLowerCase (takeWhile (\<lambda>c. c \<noteq> CHR '':'') host)"
  define base where "base = toLowerCase (HOSTING_BASE_DOMAIN cfg)"
  have g: "getProjectFromHost cfg host =
            (if host = [] then None
             else if h \<in> set (MAIN_HOSTS cfg) then None
             else if h = base then None
             else if suffix (''.'' @ base) h
               then Some (slugify (takeWhile (\<lambda>c. c \<noteq> CHR ''.'')
                                    (take (length h - (length base + 1)) h)))
             else None)"
    by (simp add: getProjectFromHost_def Let_def h_def base_def)
  have c1: "h \<in> set (MAIN_HOSTS cfg) \<or> h = HOSTING_BASE_DOMAIN cfg
              \<longrightarrow> getProjectFromHost cfg host = None"
  proof
    assume "h \<in> set (MAIN_HOSTS cfg) \<or> h = HOSTING_BASE_DOMAIN cfg"
    then show "getProjectFromHost cfg host = None"
    proof
      assume "h \<in> set (MAIN_HOSTS cfg)"
      then show ?thesis by (simp add: g)
    next
      assume e: "h = HOSTING_BASE_DOMAIN cfg"
      have "toLowerCase h = h" unfolding h_def by (rule toLowerCase_idem)
      with e have "h = base" by (simp add: base_def)
      then show ?thesis by (simp add: g)
    qed
  qed
  have c2: "h \<notin> set (MAIN_HOSTS cfg) \<and> h = pre @ ''.'' @ base
              \<longrightarrow> getProjectFromHost cfg host = Some (slugify (takeWhile (\<lambda>c. c \<noteq> CHR ''.'') pre))"
  proof
    assume a: "h \<notin> set (MAIN_HOSTS cfg) \<and> h = pre @ ''.'' @ base"
    then have e: "h = pre @ ''.'' @ base" by simp
    have "h \<noteq> []" using e by simp
    then have hne: "host \<noteq> []" by (auto simp: h_def toLowerCase_def)
    have nb: "h \<noteq> base"
    proof
      assume "h = base"
      then have "length h = length base" by simp
      with e show False by simp
    qed
    have sf: "suffix (''.'' @ base) h" unfolding e by (simp add: suffix_def)
    have tk: "take (length h - (length base + 1)) h = pre" unfolding e by simp
    from a have nm: "h \<notin> set (MAIN_HOSTS cfg)" by blast
    from nm hne nb sf tk show
      "getProjectFromHost cfg host = Some (slugify (takeWhile (\<lambda>c. c \<noteq> CHR ''.'') pre))"
      by (simp add: g)
  qed
  have c3: "\<not> suffix (''.'' @ base) h \<longrightarrow> getProjectFromHost cfg host = None"
    by (simp add: g)
  have c4: "getProjectFromHost cfg host = None \<or> getProjectFromHost cfg host = Some []
              \<longrightarrow> serve_route cfg mime host p st = (send_not_found fresh_res, [], st)"
    by (auto simp: serve_route_def)
  show ?thesis
    unfolding Let_def h_def [symmetric] base_def [symmetric]
    using c1 c2 c3 c4 by blast
qed

text \<open>The statement at a main host, at two project hosts, at a foreign host and at a
  label of symbols only, in the default configuration.\<close>

theorem getProjectFromHost_cases_witness:
  "getProjectFromHost default_config ''www.quick-stage.app:443'' = None
   \<and> getProjectFromHost default_config ''Demo.Quick-Stage.app:8080'' = Some ''demo''
   \<and> getProjectFromHost default_config ''a.b.quick-stage.app'' = Some ''a''
   \<and> getProjectFromHost default_config ''demo.example.com'' = None
   \<and> getProjectFromHost default_config ''!!!.quick-stage.app'' = Some []
   \<and> fst (serve_route default_config sample_mime ''!!!.quick-stage.app'' ''/'' demo_store)
       = \<lparr>status = 404, content_type = Some ''text/plain; charset=utf-8'', cache_control = None,
          body = ''Not Found''\<rparr>"
proof -
  note T = getProjectFromHost_cases [where cfg = default_config and mime = sample_mime
                                       and st = demo_store and p = "''/''"]
  have b: "toLowerCase (HOSTING_BASE_DOMAIN default_config) = ''quick-stage.app''" by code_simp
  have m: "MAIN_HOSTS default_config = [''quick-stage.app'', ''www.quick-stage.app'',
                     ''quickstage.app'', ''www.quickstage.app'']"
    by (simp add: default_config_def)
  have h1: "toLowerCase (takeWhile (\<lambda>c. c \<noteq> CHR '':'') ''www.quick-stage.app:443'')
              = ''www.quick-stage.app''" by code_simp
  have h2: "toLowerCase (takeWhile (\<lambda>c. c \<noteq> CHR '':'') ''Demo.Quick-Stage.app:8080'')
              = ''demo'' @ ''.'' @ ''quick-stage.app''" by code_simp
  have h3: "toLowerCase (takeWhile (\<lambda>c. c \<noteq> CHR '':'') ''a.b.quick-stage.app'')
              = ''a.b'' @ ''.'' @ ''quick-stage.app''" by code_simp
  have h4: "\<not> suffix (''.'' @ ''quick-stage.app'')
              (toLowerCase (takeWhile (\<lambda>c. c \<noteq> CHR '':'') ''demo.example.com''))" by code_simp
  have h5: "toLowerCase (takeWhile (\<lambda>c. c \<noteq> CHR '':'') ''!!!.quick-stage.app'')
              = ''!!!'' @ ''.'' @ ''quick-stage.app''" by code_simp
  have s2: "slugify (takeWhile (\<lambda>c. c \<noteq> CHR ''.'') ''demo'') = ''demo''" by code_simp
  have s3: "slugify (takeWhile (\<lambda>c. c \<noteq> CHR ''.'') ''a.b'') = ''a''" by code_simp
  have s5: "slugify (takeWhile (\<lambda>c. c \<noteq> CHR ''.'') ''!!!'') = []" by code_simp
  have 1: "getProjectFromHost default_config ''www.quick-stage.app:443'' = None"
    using T [of "''www.quick-stage.app:443''"] unfolding Let_def h1 m by simp
  have 2: "getProjectFromHost default_config ''Demo.Quick-Stage.app:8080'' = Some ''demo''"
    using T [of "''Demo.Quick-Stage.app:8080''" "''demo''"] unfolding Let_def h2 b m
    by (simp add: s2 del: takeWhile.simps)
  have 3: "getProjectFromHost default_config ''a.b.quick-stage.app'' = Some ''a''"
    using T [of "''a.b.quick-stage.app''" "''a.b''"] unfolding Let_def h3 b m
    by (simp add: s3 del: takeWhile.simps)
  have 4: "getProjectFromHost default_config ''demo.example.com'' = None"
    using T [of "''demo.example.com''"] h4 unfolding Let_def b by simp
  have 5: "getProjectFromHost default_config ''!!!.quick-stage.app'' = Some []"
    using T [of "''!!!.quick-stage.app''" "''!!!''"] unfolding Let_def h5 b m
    by (simp add: s5 del: takeWhile.simps)
  have 6: "fst (serve_route default_config sample_mime ''!!!.quick-stage.app'' ''/'' demo_store)
       = \<lparr>status = 404, content_type = Some ''text/plain; charset=utf-8'', cache_control = None,
          body = ''Not Found''\<rparr>"
    using T [of "''!!!.quick-stage.app''"] 5 unfolding Let_def
    by (simp add: send_not_found_def fresh_res_def)
  from 1 2 3 4 5 6 show ?thesis by simp
qed

text \<open>
  Claim C7 as \<open>spec.md\<close> words it: a host \<open><label>.<base>\<close> gives the slug of the label,
  and a host of any other shape gives no project.  The host \<open>a.b.quick-stage.app\<close> gives
  \<open>a\<close>: neither the slug of \<open>a.b\<close>, which is \<open>a-b\<close>, nor "no project".
\<close>

theorem getProjectFromHost_dotted_label_counterexample:
  "getProjectFromHost default_config ''a.b.quick-stage.app'' = Some ''a''
   \<and> slugify ''a.b'' = ''a-b''"
  by code_simp

section \<open>The fallback chain of the serving route\<close>

lemma getObject_healthy:
  "pending st = [] \<Longrightarrow>
     getObject k st = ((case objects st k of None \<Rightarrow> Inl NoSuchKey | Some ob \<Rightarrow> Inr ob),
                       st\<lparr>calls := calls st @ [Get k]\<rparr>)"
  by (simp add: getObject_def send_cmd_def next_fault_def split: option.splits)

lemma streamToBuffer_healthy:
  "pending st = [] \<Longrightarrow> streamToBuffer ob st = (Inr (Body ob), st)"
  by (simp add: streamToBuffer_def next_fault_def)

lemma try_exact_miss:
  "pending st = [] \<Longrightarrow> objects st k = None \<Longrightarrow>
     try_exact mime rel k res st = (Inr res, st\<lparr>calls := calls st @ [Get k]\<rparr>)"
  by (simp add: try_exact_def fetchObject_def getObject_healthy)

lemma try_html_miss:
  "pending st = [] \<Longrightarrow> objects st k = None \<Longrightarrow>
     try_html k res st = (Inr res, st\<lparr>calls := calls st @ [Get k]\<rparr>)"
  by (simp add: try_html_def fetchObject_def getObject_healthy)

lemma try_html_hit:
  "pending st = [] \<Longrightarrow> objects st k = Some ob \<Longrightarrow>
     try_html k res st =
       (Inl (res\<lparr>content_type := or_else (ContentType ob) (Some ''text/html; charset=utf-8''),
                 body := Body ob\<rparr>),
        st\<lparr>calls := calls st @ [Get k]\<rparr>)"
  by (simp add: try_html_def fetchObject_def getObject_healthy streamToBuffer_healthy)

lemma try_spa_miss:
  "pending st = [] \<Longrightarrow> objects st (SITES_PREFIX @ project @ ''/index.html'') = None \<Longrightarrow>
     try_spa project res st =
       (Inr res, st\<lparr>calls := calls st @ [Get (SITES_PREFIX @ project @ ''/index.html'')]\<rparr>)"
  by (simp add: try_spa_def fetchObject_def getObject_healthy)

lemma try_spa_hit:
  "pending st = [] \<Longrightarrow> objects st (SITES_PREFIX @ project @ ''/index.html'') = Some ob \<Longrightarrow>
     try_spa project res st =
       (Inl (res\<lparr>content_type := or_else (ContentType ob) (Some ''text/html; charset=utf-8''),
                 status := 200, body := Body ob\<rparr>),
        st\<lparr>calls := calls st @ [Get (SITES_PREFIX @ project @ ''/index.html'')]\<rparr>)"
  by (simp add: try_spa_def fetchObject_def getObject_healthy streamToBuffer_healthy)

lemma getObject_effect:
  "getObject k st = (r, st') \<Longrightarrow> calls st' = calls st @ [Get k] \<and> objects st' = objects st"
proof -
  assume a: "getObject k st = (r, st')"
  obtain f s1 where s: "send_cmd (Get k) st = (f, s1)" by (cases "send_cmd (Get k) st")
  from send_cmd_effect [OF s] a s show ?thesis
    by (cases f) (auto simp: getObject_def split: option.splits)
qed

lemma streamToBuffer_effect:
  "streamToBuffer ob st = (r, st') \<Longrightarrow> calls st' = calls st \<and> objects st' = objects st"
proof -
  assume a: "streamToBuffer ob st = (r, st')"
  obtain f s1 where s: "next_fault st = (f, s1)" by (cases "next_fault st")
  from next_fault_objects [OF s] a s show ?thesis
    by (cases f) (auto simp: streamToBuffer_def)
qed

lemma try_exact_effect:
  assumes "try_exact mime rel k res st = (r, st')"
  shows "calls st' = calls st @ [Get k]"
    and "status res = 200 \<Longrightarrow> status (case r of Inl x \<Rightarrow> x | Inr x \<Rightarrow> x) = 200"
proof -
  obtain g s1 where g: "getObject k st = (g, s1)" by (cases "getObject k st")
  note e1 = getObject_effect [OF g]
  show "calls st' = calls st @ [Get k]"
  proof (cases g)
    case (Inl e)
    with assms g e1 show ?thesis by (simp add: try_exact_def fetchObject_def)
  next
    case (Inr ob)
    obtain b s2 where b: "streamToBuffer ob s1 = (b, s2)" by (cases "streamToBuffer ob s1")
    from streamToBuffer_effect [OF b] assms g Inr b e1 show ?thesis
      by (cases b) (auto simp: try_exact_def fetchObject_def Let_def)
  qed
  show "status res = 200 \<Longrightarrow> status (case r of Inl x \<Rightarrow> x | Inr x \<Rightarrow> x) = 200"
    using assms
    by (auto simp: try_exact_def fetchObject_def Let_def split: prod.splits sum.splits if_splits)
qed

lemma try_html_effect:
  assumes "try_html k res st = (r, st')"
  shows "calls st' = calls st @ [Get k]"
    and "status res = 200 \<Longrightarrow> status (case r of Inl x \<Rightarrow> x | Inr x \<Rightarrow> x) = 200"
proof -
  obtain g s1 where g: "getObject k st = (g, s1)" by (cases "getObject k st")
  note e1 = getObject_effect [OF g]
  show "calls st' = calls st @ [Get k]"
  proof (cases g)
    case (Inl e)
    with assms g e1 show ?thesis by (simp add: try_html_def fetchObject_def)
  next
    case (Inr ob)
    obtain b s2 where b: "streamToBuffer ob s1 = (b, s2)" by (cases "streamToBuffer ob s1")
    from streamToBuffer_effect [OF b] assms g Inr b e1 show ?thesis
      by (cases b) (auto simp: try_html_def fetchObject_def Let_def)
  qed
  show "status res = 200 \<Longrightarrow> status (case r of Inl x \<Rightarrow> x | Inr x \<Rightarrow> x) = 200"
    using assms
    by (auto simp: try_html_def fetchObject_def Let_def split: prod.splits sum.splits if_splits)
qed

lemma try_spa_effect:
  assumes "try_spa project res st = (r, st')"
  shows "calls st' = calls st @ [Get (SITES_PREFIX @ project @ ''/index.html'')]"
    and "status res = 200 \<Longrightarrow> status (case r of Inl x \<Rightarrow> x | Inr x \<Rightarrow> x) = 200"
proof -
  let ?k = "SITES_PREFIX @ project @ ''/index.html''"
  obtain g s1 where g: "getObject ?k st = (g, s1)" by (cases "getObject ?k st")
  note e1 = getObject_effect [OF g]
  show "calls st' = calls st @ [Get ?k]"
  proof (cases g)
    case (Inl e)
    with assms g e1 show ?thesis by (simp add: try_spa_def fetchObject_def)
  next
    case (Inr ob)
    obtain b s2 where b: "streamToBuffer ob s1 = (b, s2)" by (cases "streamToBuffer ob s1")
    from streamToBuffer_effect [OF b] assms g Inr b e1 show ?thesis
      by (cases b) (auto simp: try_spa_def fetchObject_def Let_def)
  qed
  show "status res = 200 \<Longrightarrow> status (case r of Inl x \<Rightarrow> x | Inr x \<Rightarrow> x) = 200"
    using assms
    by (auto simp: try_spa_def fetchObject_def Let_def split: prod.splits sum.splits if_splits)
qed

text \<open>The handler for a resolved project, step by step.\<close>

lemma serve_route_unfold:
  assumes "getProjectFromHost cfg host = Some project" "project \<noteq> []"
    and "try_exact mime (rel_of_path p) (safeJoinPosix (SITES_PREFIX @ project) (rel_of_path p))
           fresh_res st = (r1, st1)"
    and "(if \<not> sublist ''.'' (rel_of_path p) \<and> \<not> suffix ''/'' (rel_of_path p)
          then try_html (safeJoinPosix (SITES_PREFIX @ project) (rel_of_path p @ ''.html''))
                 (case r1 of Inl x \<Rightarrow> x | Inr x \<Rightarrow> x) st1
          else (Inr (case r1 of Inl x \<Rightarrow> x | Inr x \<Rightarrow> x), st1)) = (r2, st2)"
    and "(if SPA_FALLBACK cfg then try_spa project (case r2 of Inl x \<Rightarrow> x | Inr x \<Rightarrow> x) st2
          else (Inr (case r2 of Inl x \<Rightarrow> x | Inr x \<Rightarrow> x), st2)) = (r3, st3)"
  shows "serve_route cfg mime host p st =
     (case r1 of Inl sent \<Rightarrow> (sent, [Exact], st1)
      | Inr res1 \<Rightarrow>
         (case r2 of
            Inl sent \<Rightarrow> (sent, [Exact, ImplicitHtml], st2)
          | Inr res2 \<Rightarrow>
             (case r3 of
                Inl sent \<Rightarrow>
                  (sent, (if \<not> sublist ''.'' (rel_of_path p) \<and> \<not> suffix ''/'' (rel_of_path p)
                          then [Exact, ImplicitHtml] else [Exact]) @ [SpaFallback], st3)
              | Inr res3 \<Rightarrow>
                  (send_not_found res3,
                   (if \<not> sublist ''.'' (rel_of_path p) \<and> \<not> suffix ''/'' (rel_of_path p)
                    then [Exact, ImplicitHtml] else [Exact])
                   @ (if SPA_FALLBACK cfg then [SpaFallback] else []), st3))))"
  using assms
  by (auto simp: serve_route_def Let_def split: sum.splits if_splits)

lemma project_one_segment:
  assumes "getProjectFromHost cfg host = Some project" "project \<noteq> []"
  shows "CHR ''/'' \<notin> set project \<and> CHR ''.'' \<notin> set project"
proof -
  from getProjectFromHost_slug [OF assms(1)] obtain x where "project = slugify x" ..
  with assms(2) slugify_one_segment [of x] show ?thesis by simp
qed

lemma serve_route_healthy:
  assumes proj: "getProjectFromHost cfg host = Some project" "project \<noteq> []"
    and h: "pending st = []"
    and m1: "objects st (safeJoinPosix (SITES_PREFIX @ project) (rel_of_path p)) = None"
  shows "\<not> sublist ''.'' (rel_of_path p) \<and> \<not> suffix ''/'' (rel_of_path p) \<Longrightarrow>
           objects st (safeJoinPosix (SITES_PREFIX @ project) (rel_of_path p @ ''.html'')) = Some ob \<Longrightarrow>
           fst (serve_route cfg mime host p st) =
             fresh_res\<lparr>content_type := or_else (ContentType ob) (Some ''text/html; charset=utf-8''),
                       body := Body ob\<rparr>
           \<and> fst (snd (serve_route cfg mime host p st)) = [Exact, ImplicitHtml]"
    and "\<not> sublist ''.'' (rel_of_path p) \<and> \<not> suffix ''/'' (rel_of_path p) \<longrightarrow>
           objects st (safeJoinPosix (SITES_PREFIX @ project) (rel_of_path p @ ''.html'')) = None \<Longrightarrow>
           SPA_FALLBACK cfg \<Longrightarrow>
           objects st (SITES_PREFIX @ project @ ''/index.html'') = Some ob \<Longrightarrow>
           fst (serve_route cfg mime host p st) =
             fresh_res\<lparr>content_type := or_else (ContentType ob) (Some ''text/html; charset=utf-8''),
                       status := 200, body := Body ob\<rparr>"
    and "\<not> sublist ''.'' (rel_of_path p) \<and> \<not> suffix ''/'' (rel_of_path p) \<longrightarrow>
           objects st (safeJoinPosix (SITES_PREFIX @ project) (rel_of_path p @ ''.html'')) = None \<Longrightarrow>
           \<not> SPA_FALLBACK cfg \<Longrightarrow>
           fst (serve_route cfg mime host p st) = send_not_found fresh_res"
  using proj h m1
  by (auto simp: serve_route_def Let_def try_exact_miss try_html_miss try_html_hit try_spa_hit)

text \<open>The handler on a store that answers, when the exact key or the \<open>.html\<close> key holds
  an object.\<close>

lemma try_exact_hit:
  "pending st = [] \<Longrightarrow> objects st k = Some ob \<Longrightarrow>
     try_exact mime rel k res st =
       (Inl (res\<lparr>status := 200,
                 content_type := or_else (ContentType ob)
                                   (or_else (lookupContentType mime rel)
                                      (Some ''application/octet-stream'')),
                 cache_control := (if truthy (CacheControl ob) then CacheControl ob
                                   else cache_control res),
                 body := Body ob\<rparr>),
        st\<lparr>calls := calls st @ [Get k]\<rparr>)"
  by (simp add: try_exact_def fetchObject_def getObject_healthy streamToBuffer_healthy Let_def)

lemma serve_route_exact_hit:
  assumes "getProjectFromHost cfg host = Some project" "project \<noteq> []"
    and "pending st = []"
    and "objects st (safeJoinPosix (SITES_PREFIX @ project) (rel_of_path p)) = Some ob"
  shows "serve_route cfg mime host p st =
           (\<lparr>status = 200,
             content_type = or_else (ContentType ob)
                              (or_else (lookupContentType mime (rel_of_path p))
                                 (Some ''application/octet-stream'')),
             cache_control = (if truthy (CacheControl ob) then CacheControl ob else None),
             body = Body ob\<rparr>,
            [Exact],
            st\<lparr>calls := calls st @ [Get (safeJoinPosix (SITES_PREFIX @ project) (rel_of_path p))]\<rparr>)"
  using assms
  by (simp add: serve_route_def Let_def try_exact_hit fresh_res_def)

lemma serve_route_html_hit:
  assumes "getProjectFromHost cfg host = Some project" "project \<noteq> []"
    and "pending st = []"
    and "objects st (safeJoinPosix (SITES_PREFIX @ project) (rel_of_path p)) = None"
    and "\<not> sublist ''.'' (rel_of_path p) \<and> \<not> suffix ''/'' (rel_of_path p)"
    and "objects st (safeJoinPosix (SITES_PREFIX @ project) (rel_of_path p @ ''.html'')) = Some ob"
  shows "serve_route cfg mime host p st =
           (\<lparr>status = 200,
             content_type = or_else (ContentType ob) (Some ''text/html; charset=utf-8''),
             cache_control = None, body = Body ob\<rparr>,
            [Exact, ImplicitHtml],
            st\<lparr>calls := calls st @ [Get (safeJoinPosix (SITES_PREFIX @ project) (rel_of_path p)),
                                     Get (safeJoinPosix (SITES_PREFIX @ project)
                                            (rel_of_path p @ ''.html''))]\<rparr>)"
  using assms
  by (simp add: serve_route_def Let_def try_exact_miss try_html_hit fresh_res_def)

text \<open>
  Claim C5.  For a host that resolves to a project, the first request to the store is
  the \<open>GET\<close> of the exact key and the first step is the exact one; when the exact key
  holds an object, in a store that answers, that object is the response, with status
  200, and no other step is attempted and no other request sent.  The implicit \<open>.html\<close>
  step is among the steps attempted only when the relative path has no dot and does not
  end in a slash: for a path with a dot or a final slash the requests are the \<open>GET\<close> of
  the exact key and at most the \<open>GET\<close> of \<open>index.html\<close> behind it.  With \<open>about.html\<close>
  stored and \<open>about\<close> not, in a store that answers, \<open>/about\<close> gets the body of
  \<open>about.html\<close> with the content type \<open>text/html; charset=utf-8\<close>, the stored object
  having that type recorded or none, through the \<open>GET\<close> of \<open>about\<close> and then of
  \<open>about.html\<close>; and \<open>/about/\<close> never goes through the implicit \<open>.html\<close> step.
\<close>

theorem implicit_html_step:
  assumes "getProjectFromHost cfg host = Some project" "project \<noteq> []"
  shows "(\<exists>more. calls (snd (snd (serve_route cfg mime host p st)))
                  = calls st @ Get (safeJoinPosix (SITES_PREFIX @ project) (rel_of_path p)) # more)
       \<and> (\<exists>later. fst (snd (serve_route cfg mime host p st)) = Exact # later)
       \<and> (pending st = []
            \<and> objects st (safeJoinPosix (SITES_PREFIX @ project) (rel_of_path p)) = Some hit
            \<longrightarrow> serve_route cfg mime host p st
                  = (\<lparr>status = 200,
                      content_type = or_else (ContentType hit)
                                       (or_else (lookupContentType mime (rel_of_path p))
                                          (Some ''application/octet-stream'')),
                      cache_control = (if truthy (CacheControl hit) then CacheControl hit
                                       else None),
                      body = Body hit\<rparr>,
                     [Exact],
                     st\<lparr>calls := calls st
                          @ [Get (safeJoinPosix (SITES_PREFIX @ project) (rel_of_path p))]\<rparr>))
       \<and> (ImplicitHtml \<in> set (fst (snd (serve_route cfg mime host p st)))
            \<longrightarrow> \<not> sublist ''.'' (rel_of_path p) \<and> \<not> suffix ''/'' (rel_of_path p))
       \<and> (sublist ''.'' (rel_of_path p) \<or> suffix ''/'' (rel_of_path p)
            \<longrightarrow> (\<exists>more. calls (snd (snd (serve_route cfg mime host p st)))
                          = calls st
                            @ Get (safeJoinPosix (SITES_PREFIX @ project) (rel_of_path p)) # more
                        \<and> prefix more [Get (SITES_PREFIX @ project @ ''/index.html'')]))
       \<and> (pending st = [] \<and> objects st (''sites/'' @ project @ ''/about'') = None
            \<and> objects st (''sites/'' @ project @ ''/about.html'') = Some ob
            \<and> (truthy (ContentType ob) \<longrightarrow> ContentType ob = Some ''text/html; charset=utf-8'')
            \<longrightarrow> fst (serve_route cfg mime host ''/about'' st)
                  = \<lparr>status = 200, content_type = Some ''text/html; charset=utf-8'',
                     cache_control = None, body = Body ob\<rparr>
                \<and> fst (snd (serve_route cfg mime host ''/about'' st)) = [Exact, ImplicitHtml]
                \<and> calls (snd (snd (serve_route cfg mime host ''/about'' st)))
                    = calls st @ [Get (''sites/'' @ project @ ''/about''),
                                  Get (''sites/'' @ project @ ''/about.html'')])
       \<and> ImplicitHtml \<notin> set (fst (snd (serve_route cfg mime host ''/about/'' st)))"
proof -
  have steps: "(\<exists>more. calls (snd (snd (serve_route cfg mime host q s)))
                  = calls s @ Get (safeJoinPosix (SITES_PREFIX @ project) (rel_of_path q)) # more)
       \<and> (\<exists>later. fst (snd (serve_route cfg mime host q s)) = Exact # later)
       \<and> (ImplicitHtml \<in> set (fst (snd (serve_route cfg mime host q s)))
            \<longrightarrow> \<not> sublist ''.'' (rel_of_path q) \<and> \<not> suffix ''/'' (rel_of_path q))
       \<and> (sublist ''.'' (rel_of_path q) \<or> suffix ''/'' (rel_of_path q)
            \<longrightarrow> (\<exists>more. calls (snd (snd (serve_route cfg mime host q s)))
                          = calls s
                            @ Get (safeJoinPosix (SITES_PREFIX @ project) (rel_of_path q)) # more
                        \<and> prefix more [Get (SITES_PREFIX @ project @ ''/index.html'')]))" for q s
  proof -
    let ?rel = "rel_of_path q"
    let ?g = "\<not> sublist ''.'' ?rel \<and> \<not> suffix ''/'' ?rel"
    let ?bk = "safeJoinPosix (SITES_PREFIX @ project) ?rel"
    let ?spa = "Get (SITES_PREFIX @ project @ ''/index.html'')"
    obtain r1 st1 where t1: "try_exact mime ?rel ?bk fresh_res s = (r1, st1)"
      by (cases "try_exact mime ?rel ?bk fresh_res s")
    obtain r2 st2 where t2:
      "(if ?g then try_html (safeJoinPosix (SITES_PREFIX @ project) (?rel @ ''.html''))
                     (case r1 of Inl x \<Rightarrow> x | Inr x \<Rightarrow> x) st1
        else (Inr (case r1 of Inl x \<Rightarrow> x | Inr x \<Rightarrow> x), st1)) = (r2, st2)"
      by (metis surj_pair)
    obtain r3 st3 where t3:
      "(if SPA_FALLBACK cfg then try_spa project (case r2 of Inl x \<Rightarrow> x | Inr x \<Rightarrow> x) st2
        else (Inr (case r2 of Inl x \<Rightarrow> x | Inr x \<Rightarrow> x), st2)) = (r3, st3)"
      by (metis surj_pair)
    note u = serve_route_unfold [OF assms t1 t2 t3]
    have c1: "calls st1 = calls s @ [Get ?bk]"
      by (rule try_exact_effect(1) [OF t1])
    have c2: "\<exists>m. calls st2 = calls st1 @ m"
      using t2 try_html_effect(1) by (auto split: if_splits)
    have c3: "calls st3 = calls st2 \<or> calls st3 = calls st2 @ [?spa]"
      using t3 try_spa_effect(1) by (auto split: if_splits)
    have g2: "r2 = Inl x \<Longrightarrow> ?g" for x
      using t2 by (auto split: if_splits)
    have n2: "\<not> ?g \<Longrightarrow> st2 = st1 \<and> (\<exists>x. r2 = Inr x)"
      using t2 by (auto split: if_splits)
    from c1 c2 c3 have a:
      "(\<exists>more. calls (snd (snd (serve_route cfg mime host q s))) = calls s @ Get ?bk # more)"
      unfolding u by (cases r1; cases r2; cases r3) auto
    have b: "\<exists>later. fst (snd (serve_route cfg mime host q s)) = Exact # later"
      unfolding u by (cases r1; cases r2; cases r3) auto
    have c: "ImplicitHtml \<in> set (fst (snd (serve_route cfg mime host q s))) \<longrightarrow> ?g"
      unfolding u using g2 by (cases r1; cases r2; cases r3) (auto split: if_splits)
    have d: "sublist ''.'' ?rel \<or> suffix ''/'' ?rel
            \<longrightarrow> (\<exists>more. calls (snd (snd (serve_route cfg mime host q s)))
                          = calls s @ Get ?bk # more \<and> prefix more [?spa])"
    proof
      assume "sublist ''.'' ?rel \<or> suffix ''/'' ?rel"
      then have "\<not> ?g" by blast
      from n2 [OF this] obtain x where s2: "st2 = st1" and x: "r2 = Inr x" by blast
      have "calls (snd (snd (serve_route cfg mime host q s))) = calls s @ Get ?bk # []
            \<or> calls (snd (snd (serve_route cfg mime host q s))) = calls s @ Get ?bk # [?spa]"
        unfolding u using c1 c3 s2 x by (cases r1; cases r3) auto
      then show "\<exists>more. calls (snd (snd (serve_route cfg mime host q s)))
                          = calls s @ Get ?bk # more \<and> prefix more [?spa]"
        by (metis prefix_order.order_refl Nil_prefix)
    qed
    from a b c d show ?thesis by blast
  qed
  have hit: "pending st = []
            \<and> objects st (safeJoinPosix (SITES_PREFIX @ project) (rel_of_path p)) = Some hit
            \<longrightarrow> serve_route cfg mime host p st
                  = (\<lparr>status = 200,
                      content_type = or_else (ContentType hit)
                                       (or_else (lookupContentType mime (rel_of_path p))
                                          (Some ''application/octet-stream'')),
                      cache_control = (if truthy (CacheControl hit) then CacheControl hit
                                       else None),
                      body = Body hit\<rparr>,
                     [Exact],
                     st\<lparr>calls := calls st
                          @ [Get (safeJoinPosix (SITES_PREFIX @ project) (rel_of_path p))]\<rparr>)"
    using serve_route_exact_hit [OF assms, of st p hit mime] by blast
  have seg: "CHR ''/'' \<notin> set project \<and> CHR ''.'' \<notin> set project"
    by (rule project_one_segment [OF assms])
  have k1: "safeJoinPosix (SITES_PREFIX @ project) ''about'' = ''sites/'' @ project @ ''/about''"
    using site_key [of project "''about''"] assms(2) seg by (simp add: keep_seg_def)
  have k2: "safeJoinPosix (SITES_PREFIX @ project) ''about.html''
              = ''sites/'' @ project @ ''/about.html''"
    using site_key [of project "''about.html''"] assms(2) seg by (simp add: keep_seg_def)
  have r: "rel_of_path ''/about'' = ''about''"
    by (simp add: rel_of_path_def strip_leading_slashes_def)
  have g: "\<not> sublist ''.'' ''about'' \<and> \<not> suffix ''/'' ''about''" by code_simp
  have about: "pending st = [] \<and> objects st (''sites/'' @ project @ ''/about'') = None
            \<and> objects st (''sites/'' @ project @ ''/about.html'') = Some ob
            \<and> (truthy (ContentType ob) \<longrightarrow> ContentType ob = Some ''text/html; charset=utf-8'')
            \<longrightarrow> fst (serve_route cfg mime host ''/about'' st)
                  = \<lparr>status = 200, content_type = Some ''text/html; charset=utf-8'',
                     cache_control = None, body = Body ob\<rparr>
                \<and> fst (snd (serve_route cfg mime host ''/about'' st)) = [Exact, ImplicitHtml]
                \<and> calls (snd (snd (serve_route cfg mime host ''/about'' st)))
                    = calls st @ [Get (''sites/'' @ project @ ''/about''),
                                  Get (''sites/'' @ project @ ''/about.html'')]"
  proof
    assume a: "pending st = [] \<and> objects st (''sites/'' @ project @ ''/about'') = None
            \<and> objects st (''sites/'' @ project @ ''/about.html'') = Some ob
            \<and> (truthy (ContentType ob) \<longrightarrow> ContentType ob = Some ''text/html; charset=utf-8'')"
    then have ct: "or_else (ContentType ob) (Some ''text/html; charset=utf-8'')
                     = Some ''text/html; charset=utf-8''"
      by (auto simp: or_else_def)
    have m: "objects st (safeJoinPosix (SITES_PREFIX @ project) (rel_of_path ''/about'')) = None"
      unfolding r k1 using a by blast
    have gg: "\<not> sublist ''.'' (rel_of_path ''/about'') \<and> \<not> suffix ''/'' (rel_of_path ''/about'')"
      unfolding r by (rule g)
    have h: "objects st (safeJoinPosix (SITES_PREFIX @ project) (rel_of_path ''/about'' @ ''.html''))
               = Some ob"
      unfolding r using a k2 by simp
    from a have pe: "pending st = []" by blast
    have "serve_route cfg mime host ''/about'' st =
           (\<lparr>status = 200,
             content_type = or_else (ContentType ob) (Some ''text/html; charset=utf-8''),
             cache_control = None, body = Body ob\<rparr>,
            [Exact, ImplicitHtml],
            st\<lparr>calls := calls st @ [Get (''sites/'' @ project @ ''/about''),
                                     Get (''sites/'' @ project @ ''/about.html'')]\<rparr>)"
      using serve_route_html_hit [OF assms pe m gg h, of mime] unfolding r k1 by (simp add: k2)
    then show "fst (serve_route cfg mime host ''/about'' st)
                  = \<lparr>status = 200, content_type = Some ''text/html; charset=utf-8'',
                     cache_control = None, body = Body ob\<rparr>
                \<and> fst (snd (serve_route cfg mime host ''/about'' st)) = [Exact, ImplicitHtml]
                \<and> calls (snd (snd (serve_route cfg mime host ''/about'' st)))
                    = calls st @ [Get (''sites/'' @ project @ ''/about''),
                                  Get (''sites/'' @ project @ ''/about.html'')]"
      by (simp add: ct)
  qed
  have r': "rel_of_path ''/about/'' = ''about/''"
    by (simp add: rel_of_path_def strip_leading_slashes_def)
  have "suffix ''/'' ''about/''" by code_simp
  with steps [of "''/about/''" st] r'
  have last: "ImplicitHtml \<notin> set (fst (snd (serve_route cfg mime host ''/about/'' st)))"
    by auto
  from steps [of p st] hit about last show ?thesis by blast
qed

text \<open>
  The statement at the project \<open>demo\<close> and the store that holds \<open>about.html\<close> only, for
  the paths \<open>/about.html\<close>, \<open>/about\<close> and \<open>/about/\<close>.
\<close>

theorem implicit_html_step_witness:
  "serve_route default_config sample_mime ''demo.quick-stage.app'' ''/about.html'' about_store
     = (\<lparr>status = 200, content_type = Some ''text/html; charset=utf-8'',
         cache_control = None, body = ''<h1>about</h1>''\<rparr>,
        [Exact],
        about_store\<lparr>calls := [Get ''sites/demo/about.html'']\<rparr>)
   \<and> fst (serve_route default_config sample_mime ''demo.quick-stage.app'' ''/about'' about_store)
       = \<lparr>status = 200, content_type = Some ''text/html; charset=utf-8'',
          cache_control = None, body = ''<h1>about</h1>''\<rparr>
   \<and> fst (snd (serve_route default_config sample_mime ''demo.quick-stage.app''
                  ''/about'' about_store)) = [Exact, ImplicitHtml]
   \<and> calls (snd (snd (serve_route default_config sample_mime ''demo.quick-stage.app''
                         ''/about'' about_store)))
       = [Get ''sites/demo/about'', Get ''sites/demo/about.html'']
   \<and> ImplicitHtml
       \<notin> set (fst (snd (serve_route default_config sample_mime ''demo.quick-stage.app''
                          ''/about/'' about_store)))
   \<and> prefix (calls (snd (snd (serve_route default_config sample_mime ''demo.quick-stage.app''
                                 ''/about/'' about_store))))
        [Get ''sites/demo/about'', Get ''sites/demo/index.html'']"
proof -
  let ?ob = "\<lparr>Body = ''<h1>about</h1>'', ContentType = None, CacheControl = None\<rparr>"
  have p: "getProjectFromHost default_config ''demo.quick-stage.app'' = Some ''demo''"
    by code_simp
  have n: "''demo'' \<noteq> []" by simp
  note A = implicit_html_step [OF p n, of sample_mime "''/about.html''" about_store ?ob ?ob]
  note B = implicit_html_step [OF p n, of sample_mime "''/about/''" about_store ?ob ?ob]
  have pe: "pending about_store = []" by (simp add: about_store_def)
  have ca: "calls about_store = []" by (simp add: about_store_def)
  have k: "safeJoinPosix (SITES_PREFIX @ ''demo'') (rel_of_path ''/about.html'')
             = ''sites/demo/about.html''" by code_simp
  have k': "safeJoinPosix (SITES_PREFIX @ ''demo'') (rel_of_path ''/about/'')
             = ''sites/demo/about''" by code_simp
  have sp: "SITES_PREFIX @ ''demo'' @ ''/index.html'' = ''sites/demo/index.html''"
    by (simp add: SITES_PREFIX_def)
  have o1: "objects about_store ''sites/demo/about.html'' = Some ?ob"
    by (simp add: about_store_def)
  have o2: "objects about_store (''sites/'' @ ''demo'' @ ''/about'') = None"
    by (simp add: about_store_def)
  have o3: "objects about_store (''sites/'' @ ''demo'' @ ''/about.html'') = Some ?ob"
    by (simp add: about_store_def)
  have ct: "or_else (ContentType ?ob)
              (or_else (lookupContentType sample_mime (rel_of_path ''/about.html''))
                 (Some ''application/octet-stream'')) = Some ''text/html; charset=utf-8''"
    by code_simp
  have tr: "\<not> truthy (ContentType ?ob)" "\<not> truthy (CacheControl ?ob)"
    by (simp_all add: truthy_def)
  have sl: "suffix ''/'' (rel_of_path ''/about/'')" by code_simp
  have 1: "serve_route default_config sample_mime ''demo.quick-stage.app'' ''/about.html''
             about_store
           = (\<lparr>status = 200, content_type = Some ''text/html; charset=utf-8'',
               cache_control = None, body = ''<h1>about</h1>''\<rparr>,
              [Exact],
              about_store\<lparr>calls := [Get ''sites/demo/about.html'']\<rparr>)"
    using A pe o1 tr unfolding k ct by (simp add: ca)
  have 2: "fst (serve_route default_config sample_mime ''demo.quick-stage.app'' ''/about''
                  about_store)
             = \<lparr>status = 200, content_type = Some ''text/html; charset=utf-8'',
                cache_control = None, body = ''<h1>about</h1>''\<rparr>
           \<and> fst (snd (serve_route default_config sample_mime ''demo.quick-stage.app''
                  ''/about'' about_store)) = [Exact, ImplicitHtml]
           \<and> calls (snd (snd (serve_route default_config sample_mime ''demo.quick-stage.app''
                         ''/about'' about_store)))
               = [Get ''sites/demo/about'', Get ''sites/demo/about.html'']"
    using A pe o2 o3 tr by (simp add: ca)
  have 3: "ImplicitHtml
       \<notin> set (fst (snd (serve_route default_config sample_mime ''demo.quick-stage.app''
                          ''/about/'' about_store)))"
    using A by blast
  from B sl obtain more where
    m: "calls (snd (snd (serve_route default_config sample_mime ''demo.quick-stage.app''
                                 ''/about/'' about_store)))
          = calls about_store
            @ Get (safeJoinPosix (SITES_PREFIX @ ''demo'') (rel_of_path ''/about/'')) # more"
       "prefix more [Get (SITES_PREFIX @ ''demo'' @ ''/index.html'')]"
    by blast
  have 4: "prefix (calls (snd (snd (serve_route default_config sample_mime
                                 ''demo.quick-stage.app'' ''/about/'' about_store))))
        [Get ''sites/demo/about'', Get ''sites/demo/index.html'']"
    using m unfolding k' sp ca by simp
  from 1 2 3 4 show ?thesis by blast
qed

text \<open>
  Claim C6.  For a host that resolves to a project, any request path, and a store that
  answers: when neither the exact key nor, where that step applies, the \<open>.html\<close> key
  holds an object, and \<open>sites/<project>/index.html\<close> does, the response is that object
  with status 200 if the SPA fallback is enabled, and the 404 "Not Found" if it is
  disabled.
\<close>

theorem spa_fallback_step:
  assumes "getProjectFromHost cfg host = Some project" "project \<noteq> []"
    and "pending st = []"
    and "objects st (safeJoinPosix (SITES_PREFIX @ project) (rel_of_path p)) = None"
    and "\<not> sublist ''.'' (rel_of_path p) \<and> \<not> suffix ''/'' (rel_of_path p) \<longrightarrow>
           objects st (safeJoinPosix (SITES_PREFIX @ project) (rel_of_path p @ ''.html'')) = None"
    and "objects st (''sites/'' @ project @ ''/index.html'') = Some ob"
  shows "(SPA_FALLBACK cfg \<longrightarrow>
            fst (serve_route cfg mime host p st)
              = \<lparr>status = 200,
                 content_type = or_else (ContentType ob) (Some ''text/html; charset=utf-8''),
                 cache_control = None, body = Body ob\<rparr>)
       \<and> (\<not> SPA_FALLBACK cfg \<longrightarrow>
            fst (serve_route cfg mime host p st)
              = \<lparr>status = 404, content_type = Some ''text/plain; charset=utf-8'',
                 cache_control = None, body = ''Not Found''\<rparr>)"
proof -
  have i: "objects st (SITES_PREFIX @ project @ ''/index.html'') = Some ob"
    using assms(6) by (simp add: SITES_PREFIX_def)
  have on: "SPA_FALLBACK cfg \<longrightarrow>
            fst (serve_route cfg mime host p st)
              = \<lparr>status = 200,
                 content_type = or_else (ContentType ob) (Some ''text/html; charset=utf-8''),
                 cache_control = None, body = Body ob\<rparr>"
    using serve_route_healthy(2) [OF assms(1-4) assms(5) _ i, of mime]
    by (simp add: fresh_res_def)
  have off: "\<not> SPA_FALLBACK cfg \<longrightarrow>
            fst (serve_route cfg mime host p st)
              = \<lparr>status = 404, content_type = Some ''text/plain; charset=utf-8'',
                 cache_control = None, body = ''Not Found''\<rparr>"
    using serve_route_healthy(3) [OF assms(1-4) assms(5), of mime]
    by (simp add: fresh_res_def send_not_found_def)
  from on off show ?thesis by blast
qed

text \<open>
  The statement at \<open>/missing/page\<close> and the store that holds \<open>index.html\<close> only, with
  the fallback enabled and disabled.
\<close>

theorem spa_fallback_step_witness:
  "fst (serve_route default_config sample_mime ''demo.quick-stage.app'' ''/missing/page''
          index_store)
     = \<lparr>status = 200, content_type = Some ''text/html; charset=utf-8'',
        cache_control = None, body = ''<div id=app>''\<rparr>
   \<and> fst (serve_route (default_config\<lparr>SPA_FALLBACK := False\<rparr>) sample_mime
            ''demo.quick-stage.app'' ''/missing/page'' index_store)
       = \<lparr>status = 404, content_type = Some ''text/plain; charset=utf-8'',
          cache_control = None, body = ''Not Found''\<rparr>"
proof -
  let ?ob = "\<lparr>Body = ''<div id=app>'', ContentType = Some ''text/html; charset=utf-8'',
              CacheControl = Some ''no-cache''\<rparr>"
  have p1: "getProjectFromHost default_config ''demo.quick-stage.app'' = Some ''demo''"
    by code_simp
  have p2: "getProjectFromHost (default_config\<lparr>SPA_FALLBACK := False\<rparr>) ''demo.quick-stage.app''
              = Some ''demo''"
    by code_simp
  have n: "''demo'' \<noteq> []" by simp
  have h: "pending index_store = []" by (simp add: index_store_def)
  have k1: "safeJoinPosix (SITES_PREFIX @ ''demo'') (rel_of_path ''/missing/page'')
              = ''sites/demo/missing/page''" by code_simp
  have k2: "safeJoinPosix (SITES_PREFIX @ ''demo'') (rel_of_path ''/missing/page'' @ ''.html'')
              = ''sites/demo/missing/page.html''" by code_simp
  have m1: "objects index_store
              (safeJoinPosix (SITES_PREFIX @ ''demo'') (rel_of_path ''/missing/page'')) = None"
    unfolding k1 by (simp add: index_store_def)
  have m2: "\<not> sublist ''.'' (rel_of_path ''/missing/page'')
              \<and> \<not> suffix ''/'' (rel_of_path ''/missing/page'') \<longrightarrow>
            objects index_store
              (safeJoinPosix (SITES_PREFIX @ ''demo'') (rel_of_path ''/missing/page'' @ ''.html''))
              = None"
    unfolding k2 by (simp add: index_store_def)
  have i: "objects index_store (''sites/'' @ ''demo'' @ ''/index.html'') = Some ?ob"
    by (simp add: index_store_def)
  have on: "SPA_FALLBACK default_config" by (simp add: default_config_def)
  have off: "\<not> SPA_FALLBACK (default_config\<lparr>SPA_FALLBACK := False\<rparr>)" by simp
  from spa_fallback_step [OF p1 n h m1 m2 i, of sample_mime]
       spa_fallback_step [OF p2 n h m1 m2 i, of sample_mime] on off
  show ?thesis by (simp add: or_else_def truthy_def)
qed

section \<open>Failures of the store while serving\<close>

lemma forget_kind_fields [simp]:
  "objects (forget_kind st) = objects st" "calls (forget_kind st) = calls st"
  by (simp_all add: forget_kind_def)











section \<open>A slug that ends in a hyphen\<close>

text \<open>
  Claim C8 fails on the code.  \<open>slugify\<close> strips the hyphen at the end before it cuts
  the string to 63 characters, so the cut can leave one: 62 letters \<open>a\<close>, a hyphen and
  a \<open>b\<close> give a slug of 63 characters that ends in a hyphen.  The lemmas
  \<open>slugify_chars\<close>, \<open>length_slugify\<close>, \<open>slugify_no_double_hyphen\<close> and
  \<open>slugify_no_leading_hyphen\<close> above are the parts of the claim that hold on every input.
\<close>

theorem slugify_trailing_hyphen:
  "slugify (replicate 62 (CHR ''a'') @ ''-b'') = replicate 62 (CHR ''a'') @ ''-''
   \<and> last (slugify (replicate 62 (CHR ''a'') @ ''-b'')) = CHR ''-''"
  by code_simp

end
